theory Spec2Isabelle
  imports Main "HOL-Library.Monad_Syntax"
begin

section \<open>Tokens (token.h, token.c)\<close>

datatype TokenType =
    TOKEN_CONST | TOKEN_INT | TOKEN_DOUBLE | TOKEN_CHAR | TOKEN_VOID | TOKEN_IF
  | TOKEN_ELSE | TOKEN_WHILE | TOKEN_FOR | TOKEN_RETURN | TOKEN_BREAK
  | TOKEN_CONTINUE | TOKEN_STRUCT
  | TOKEN_IDENTIFIER | TOKEN_INT_CONST | TOKEN_DOUBLE_CONST | TOKEN_CHAR_CONST
  | TOKEN_STRING_CONST
  | TOKEN_PLUS | TOKEN_MINUS | TOKEN_MULTIPLY | TOKEN_DIVIDE | TOKEN_MODULO
  | TOKEN_ASSIGN | TOKEN_EQ | TOKEN_NE | TOKEN_LT | TOKEN_LE | TOKEN_GT | TOKEN_GE
  | TOKEN_AND | TOKEN_OR | TOKEN_NOT
  | TOKEN_SEMICOLON | TOKEN_COMMA | TOKEN_LPAREN | TOKEN_RPAREN | TOKEN_LBRACE
  | TOKEN_RBRACE | TOKEN_LBRACKET | TOKEN_RBRACKET
  | TOKEN_EOF | TOKEN_ERROR

text \<open>
  The union \<^verbatim>\<open>value\<close> of the C struct, tagged by the member that was written.
  \<open>NoValue\<close> is the union that \<^verbatim>\<open>create_token\<close> leaves unwritten. The double member
  holds \<^verbatim>\<open>atof(number_str)\<close>; floating point is not modelled, so \<open>DoubleValue\<close> keeps the
  text that \<^verbatim>\<open>atof\<close> is applied to.
\<close>

datatype TokenValue = NoValue | IntValue int | DoubleValue string | CharValue char

record Token =
  type :: TokenType
  lexeme :: string
  line :: int
  column :: int
  value' :: TokenValue

text \<open>A C string stops at its first NUL byte: \<^verbatim>\<open>strlen\<close>, \<^verbatim>\<open>strdup\<close>, \<^verbatim>\<open>strncpy\<close>.\<close>

definition c_str :: "string \<Rightarrow> string" where
  "c_str s = takeWhile (\<lambda>c. c \<noteq> CHR 0x00) s"

definition strlen :: "string \<Rightarrow> nat" where
  "strlen s = length (c_str s)"

definition create_token :: "TokenType \<Rightarrow> string \<Rightarrow> int \<Rightarrow> int \<Rightarrow> Token" where
  "create_token ty lexm ln col =
     \<lparr>type = ty, lexeme = c_str lexm, line = ln, column = col, value' = NoValue\<rparr>"

definition keyword_table :: "(string \<times> TokenType) list" where
  "keyword_table =
    [(''const'', TOKEN_CONST), (''int'', TOKEN_INT), (''double'', TOKEN_DOUBLE),
     (''char'', TOKEN_CHAR), (''void'', TOKEN_VOID), (''if'', TOKEN_IF),
     (''else'', TOKEN_ELSE), (''while'', TOKEN_WHILE), (''for'', TOKEN_FOR),
     (''return'', TOKEN_RETURN), (''break'', TOKEN_BREAK),
     (''continue'', TOKEN_CONTINUE), (''struct'', TOKEN_STRUCT)]"

fun lookup_in :: "(string \<times> TokenType) list \<Rightarrow> string \<Rightarrow> TokenType" where
  "lookup_in [] str = TOKEN_IDENTIFIER"
| "lookup_in ((k, ty) # rest) str = (if str = k then ty else lookup_in rest str)"

definition lookup_keyword :: "string \<Rightarrow> TokenType" where
  "lookup_keyword str = lookup_in keyword_table str"

section \<open>Character classes and number conversion of the C library\<close>

text \<open>
  \<^verbatim>\<open>ctype.h\<close> in the "C" locale, on the byte value of the character. No byte above 127
  is in any class.
\<close>

definition isspace :: "char \<Rightarrow> bool" where
  "isspace c \<longleftrightarrow> (9 \<le> (of_char c :: nat) \<and> (of_char c :: nat) \<le> 13) \<or> c = CHR '' ''"

definition isdigit :: "char \<Rightarrow> bool" where
  "isdigit c \<longleftrightarrow> 48 \<le> (of_char c :: nat) \<and> (of_char c :: nat) \<le> 57"

definition isalpha :: "char \<Rightarrow> bool" where
  "isalpha c \<longleftrightarrow> (65 \<le> (of_char c :: nat) \<and> (of_char c :: nat) \<le> 90)
               \<or> (97 \<le> (of_char c :: nat) \<and> (of_char c :: nat) \<le> 122)"

definition isalnum :: "char \<Rightarrow> bool" where
  "isalnum c \<longleftrightarrow> isalpha c \<or> isdigit c"

definition isxdigit :: "char \<Rightarrow> bool" where
  "isxdigit c \<longleftrightarrow> isdigit c \<or> (65 \<le> (of_char c :: nat) \<and> (of_char c :: nat) \<le> 70)
               \<or> (97 \<le> (of_char c :: nat) \<and> (of_char c :: nat) \<le> 102)"

text \<open>
  \<^verbatim>\<open>strtoll(s, NULL, base)\<close> of ISO C: leading white space, an optional sign, for base 16
  an optional \<^verbatim>\<open>0x\<close>/\<^verbatim>\<open>0X\<close> in front of a hexadecimal digit, then the longest run of
  digits of the base; a value outside \<^verbatim>\<open>long long\<close> is replaced by \<^verbatim>\<open>LLONG_MAX\<close> or
  \<^verbatim>\<open>LLONG_MIN\<close>. \<^verbatim>\<open>atoll(s)\<close> is \<^verbatim>\<open>strtoll(s, NULL, 10)\<close>.
\<close>

definition LLONG_MAX :: int where
  "LLONG_MAX = 9223372036854775807"

definition LLONG_MIN :: int where
  "LLONG_MIN = - 9223372036854775808"

definition digit_value :: "char \<Rightarrow> nat" where
  "digit_value c =
     (if isdigit c then of_char c - 48
      else if 97 \<le> (of_char c :: nat) \<and> (of_char c :: nat) \<le> 122 then of_char c - 87
      else if 65 \<le> (of_char c :: nat) \<and> (of_char c :: nat) \<le> 90 then of_char c - 55
      else 36)"

definition base_value :: "nat \<Rightarrow> string \<Rightarrow> int" where
  "base_value base ds = foldl (\<lambda>acc c. acc * int base + int (digit_value c)) 0 ds"

definition strtoll :: "string \<Rightarrow> nat \<Rightarrow> int" where
  "strtoll s base =
     (let s1 = dropWhile isspace s;
          neg = (s1 \<noteq> [] \<and> hd s1 = CHR ''-'');
          s2 = (if s1 \<noteq> [] \<and> (hd s1 = CHR ''-'' \<or> hd s1 = CHR ''+'') then tl s1 else s1);
          s3 = (if base = 16 \<and> 3 \<le> length s2 \<and> s2 ! 0 = CHR ''0''
                   \<and> (s2 ! 1 = CHR ''x'' \<or> s2 ! 1 = CHR ''X'') \<and> isxdigit (s2 ! 2)
                then drop 2 s2 else s2);
          ds = takeWhile (\<lambda>c. digit_value c < base) s3;
          v = base_value base ds
      in if neg then max LLONG_MIN (- v) else min LLONG_MAX v)"

definition atoll :: "string \<Rightarrow> int" where
  "atoll s = strtoll s 10"

section \<open>The scanner (lexer.h, lexer.c)\<close>

text \<open>
  \<open>source\<close> lists the bytes that the pointer \<^verbatim>\<open>source\<close> refers to, up to the NUL that
  ends the array; as a C string it ends at its first NUL byte. \<open>length'\<close> is the field
  \<^verbatim>\<open>length\<close>. The counters \<^verbatim>\<open>line\<close> and \<^verbatim>\<open>column\<close> are C \<^verbatim>\<open>int\<close>s, modelled unbounded.
\<close>

record Lexer =
  source :: string
  pos :: nat
  length' :: nat
  line :: int
  column :: int
  current_char :: char

text \<open>Reading \<^verbatim>\<open>source[i]\<close>: past the listed bytes sits the terminating NUL.\<close>

definition source_at :: "string \<Rightarrow> nat \<Rightarrow> char" where
  "source_at s i = (if i < length s then s ! i else CHR 0x00)"

definition create_lexer :: "string \<Rightarrow> Lexer" where
  "create_lexer src =
     \<lparr>source = src, pos = 0, length' = strlen src, line = 1, column = 1,
      current_char = source_at src 0\<rparr>"

definition advance :: "Lexer \<Rightarrow> Lexer" where
  "advance lx =
     (if pos lx < length' lx then
        let lx1 = (if current_char lx = CHR 0x0A
                   then lx\<lparr>line := line lx + 1, column := 1\<rparr>
                   else lx\<lparr>column := column lx + 1\<rparr>);
            lx2 = lx1\<lparr>pos := pos lx1 + 1\<rparr>
        in if pos lx2 < length' lx2
           then lx2\<lparr>current_char := source_at (source lx2) (pos lx2)\<rparr>
           else lx2\<lparr>current_char := CHR 0x00\<rparr>
      else lx)"

definition peek :: "Lexer \<Rightarrow> char" where
  "peek lx = (if pos lx + 1 < length' lx then source_at (source lx) (pos lx + 1) else CHR 0x00)"

text \<open>
  Every \<^verbatim>\<open>while (current_char != '\0' && p(current_char)) advance(lexer);\<close> of
  \<^verbatim>\<open>skip_whitespace\<close>, \<^verbatim>\<open>skip_line_comment\<close>, \<^verbatim>\<open>read_identifier\<close> and \<^verbatim>\<open>read_number\<close>.
  On a state whose \<^verbatim>\<open>pos\<close> has reached \<^verbatim>\<open>length\<close> while \<^verbatim>\<open>current_char\<close> still
  passes the test, \<^verbatim>\<open>advance\<close> changes nothing and the loop never ends: the result is
  \<open>None\<close>.
\<close>

partial_function (option) advance_while :: "(char \<Rightarrow> bool) \<Rightarrow> Lexer \<Rightarrow> Lexer option" where
  [code]: "advance_while p lx =
     (if current_char lx \<noteq> CHR 0x00 \<and> p (current_char lx)
      then advance_while p (advance lx) else Some lx)"

definition skip_whitespace :: "Lexer \<Rightarrow> Lexer option" where
  "skip_whitespace lx = advance_while isspace lx"

definition skip_line_comment :: "Lexer \<Rightarrow> Lexer option" where
  "skip_line_comment lx =
     do { lx1 \<leftarrow> advance_while (\<lambda>c. c \<noteq> CHR 0x0A) (advance (advance lx));
          Some (if current_char lx1 = CHR 0x0A then advance lx1 else lx1) }"

partial_function (option) block_comment_loop :: "Lexer \<Rightarrow> Lexer option" where
  [code]: "block_comment_loop lx =
     (if current_char lx \<noteq> CHR 0x00 then
        if current_char lx = CHR ''*'' \<and> peek lx = CHR ''/''
        then Some (advance (advance lx))
        else block_comment_loop (advance lx)
      else Some lx)"

definition skip_block_comment :: "Lexer \<Rightarrow> Lexer option" where
  "skip_block_comment lx = block_comment_loop (advance (advance lx))"

text \<open>
  \<^verbatim>\<open>strncpy(buf, source + start, len); buf[len] = '\0';\<close> followed by the \<^verbatim>\<open>strdup\<close>
  of \<^verbatim>\<open>create_token\<close>.
\<close>

definition substr :: "string \<Rightarrow> nat \<Rightarrow> nat \<Rightarrow> string" where
  "substr s start len = c_str (take len (drop start s))"

definition read_identifier :: "Lexer \<Rightarrow> (Token \<times> Lexer) option" where
  "read_identifier lx =
     do { let start_line = Lexer.line lx;
          let start_column = Lexer.column lx;
          let start_pos = pos lx;
          lx1 \<leftarrow> advance_while (\<lambda>c. isalnum c \<or> c = CHR ''_'') lx;
          let identifier = substr (source lx1) start_pos (pos lx1 - start_pos);
          Some (create_token (lookup_keyword identifier) identifier start_line start_column, lx1) }"

definition read_number :: "Lexer \<Rightarrow> (Token \<times> Lexer) option" where
  "read_number lx =
     do { let start_line = Lexer.line lx;
          let start_column = Lexer.column lx;
          let start_pos = pos lx;
          (lx', is_float, is_hex) \<leftarrow>
            (if current_char lx = CHR ''0'' \<and> (peek lx = CHR ''x'' \<or> peek lx = CHR ''X'')
             then do { lx1 \<leftarrow> advance_while isxdigit (advance (advance lx));
                       Some (lx1, False, True) }
             else do {
               lx1 \<leftarrow> advance_while isdigit lx;
               (lx2, is_float2) \<leftarrow>
                 (if current_char lx1 = CHR ''.'' \<and> isdigit (peek lx1)
                  then do { l \<leftarrow> advance_while isdigit (advance lx1); Some (l, True) }
                  else Some (lx1, False));
               (lx3, is_float3) \<leftarrow>
                 (if current_char lx2 = CHR ''e'' \<or> current_char lx2 = CHR ''E''
                  then do { let l = advance lx2;
                            let l' = (if current_char l = CHR ''+'' \<or> current_char l = CHR ''-''
                                      then advance l else l);
                            l'' \<leftarrow> advance_while isdigit l';
                            Some (l'', True) }
                  else Some (lx2, is_float2));
               Some (lx3, is_float3, False) });
          let number_str = substr (source lx') start_pos (pos lx' - start_pos);
          Some (if is_float
                then (create_token TOKEN_DOUBLE_CONST number_str start_line start_column)
                       \<lparr>value' := DoubleValue number_str\<rparr>
                else (create_token TOKEN_INT_CONST number_str start_line start_column)
                       \<lparr>value' := IntValue (if is_hex then strtoll number_str 16
                                               else atoll number_str)\<rparr>,
                lx') }"

text \<open>The diagnostic texts of the ERROR tokens are UTF-8 byte strings in the source file.\<close>

definition msg_unterminated_string :: string where
  "msg_unterminated_string =
     [CHR 0xE6, CHR 0x9C, CHR 0xAA, CHR 0xE7, CHR 0xBB, CHR 0x93, CHR 0xE6, CHR 0x9D,
      CHR 0x9F, CHR 0xE7, CHR 0x9A, CHR 0x84, CHR 0xE5, CHR 0xAD, CHR 0x97, CHR 0xE7,
      CHR 0xAC, CHR 0xA6, CHR 0xE4, CHR 0xB8, CHR 0xB2]"

definition msg_unterminated_char :: string where
  "msg_unterminated_char =
     [CHR 0xE6, CHR 0x9C, CHR 0xAA, CHR 0xE7, CHR 0xBB, CHR 0x93, CHR 0xE6, CHR 0x9D,
      CHR 0x9F, CHR 0xE7, CHR 0x9A, CHR 0x84, CHR 0xE5, CHR 0xAD, CHR 0x97, CHR 0xE7,
      CHR 0xAC, CHR 0xA6, CHR 0xE5, CHR 0xB8, CHR 0xB8, CHR 0xE9, CHR 0x87, CHR 0x8F]"

text \<open>\<^verbatim>\<open>snprintf(error_msg, 64, "...: '%c'", current)\<close>: 17 bytes, never truncated.\<close>

definition msg_illegal_char :: "char \<Rightarrow> string" where
  "msg_illegal_char current =
     [CHR 0xE9, CHR 0x9D, CHR 0x9E, CHR 0xE6, CHR 0xB3, CHR 0x95, CHR 0xE5, CHR 0xAD,
      CHR 0x97, CHR 0xE7, CHR 0xAC, CHR 0xA6, CHR 0x3A, CHR 0x20, CHR 0x27]
     @ [current, CHR 0x27]"

partial_function (option) string_loop :: "Lexer \<Rightarrow> Lexer option" where
  [code]: "string_loop lx =
     (if current_char lx \<noteq> CHR 0x00 \<and> current_char lx \<noteq> CHR 0x22 then
        if current_char lx = CHR 0x5C
        then (let lx1 = advance lx
              in string_loop (if current_char lx1 \<noteq> CHR 0x00 then advance lx1 else lx1))
        else string_loop (advance lx)
      else Some lx)"

definition read_string :: "Lexer \<Rightarrow> (Token \<times> Lexer) option" where
  "read_string lx =
     do { let start_line = Lexer.line lx;
          let start_column = Lexer.column lx;
          let start_pos = pos lx;
          lx1 \<leftarrow> string_loop (advance lx);
          if current_char lx1 \<noteq> CHR 0x22
          then Some (create_token TOKEN_ERROR msg_unterminated_string start_line start_column, lx1)
          else do {
            let lx2 = advance lx1;
            let string = substr (source lx2) start_pos (pos lx2 - start_pos);
            Some (create_token TOKEN_STRING_CONST string start_line start_column, lx2) } }"

definition read_char :: "Lexer \<Rightarrow> Token \<times> Lexer" where
  "read_char lx =
     (let start_line = Lexer.line lx;
          start_column = Lexer.column lx;
          start_pos = pos lx;
          lx1 = advance lx;
          (char_value, lx2) =
            (if current_char lx1 = CHR 0x5C then
               let l = advance lx1;
                   v = (if current_char l = CHR ''n'' then CHR 0x0A
                        else if current_char l = CHR ''t'' then CHR 0x09
                        else if current_char l = CHR ''r'' then CHR 0x0D
                        else if current_char l = CHR 0x5C then CHR 0x5C
                        else if current_char l = CHR 0x27 then CHR 0x27
                        else if current_char l = CHR ''0'' then CHR 0x00
                        else current_char l)
               in (v, advance l)
             else if current_char lx1 \<noteq> CHR 0x00 \<and> current_char lx1 \<noteq> CHR 0x27
             then (current_char lx1, advance lx1)
             else (CHR 0x00, lx1))
      in if current_char lx2 \<noteq> CHR 0x27
         then (create_token TOKEN_ERROR msg_unterminated_char start_line start_column, lx2)
         else
           let lx3 = advance lx2;
               char_str = substr (source lx3) start_pos (pos lx3 - start_pos)
           in ((create_token TOKEN_CHAR_CONST char_str start_line start_column)
                 \<lparr>value' := CharValue char_value\<rparr>, lx3))"

text \<open>The \<^verbatim>\<open>switch (current)\<close> at the end of \<^verbatim>\<open>get_next_token\<close>.\<close>

definition single_char_token :: "char \<Rightarrow> int \<Rightarrow> int \<Rightarrow> Token" where
  "single_char_token current start_line start_column =
     (if current = CHR ''+'' then create_token TOKEN_PLUS ''+'' start_line start_column
      else if current = CHR ''-'' then create_token TOKEN_MINUS ''-'' start_line start_column
      else if current = CHR ''*'' then create_token TOKEN_MULTIPLY ''*'' start_line start_column
      else if current = CHR ''/'' then create_token TOKEN_DIVIDE ''/'' start_line start_column
      else if current = CHR ''%'' then create_token TOKEN_MODULO ''%'' start_line start_column
      else if current = CHR ''='' then create_token TOKEN_ASSIGN ''='' start_line start_column
      else if current = CHR ''<'' then create_token TOKEN_LT ''<'' start_line start_column
      else if current = CHR ''>'' then create_token TOKEN_GT ''>'' start_line start_column
      else if current = CHR ''!'' then create_token TOKEN_NOT ''!'' start_line start_column
      else if current = CHR '';'' then create_token TOKEN_SEMICOLON '';'' start_line start_column
      else if current = CHR '','' then create_token TOKEN_COMMA '','' start_line start_column
      else if current = CHR ''('' then create_token TOKEN_LPAREN ''('' start_line start_column
      else if current = CHR '')'' then create_token TOKEN_RPAREN '')'' start_line start_column
      else if current = CHR ''{'' then create_token TOKEN_LBRACE ''{'' start_line start_column
      else if current = CHR ''}'' then create_token TOKEN_RBRACE ''}'' start_line start_column
      else if current = CHR ''['' then create_token TOKEN_LBRACKET ''['' start_line start_column
      else if current = CHR '']'' then create_token TOKEN_RBRACKET '']'' start_line start_column
      else create_token TOKEN_ERROR (msg_illegal_char current) start_line start_column)"

text \<open>
  \<^verbatim>\<open>get_next_token\<close>: the \<^verbatim>\<open>continue\<close> after white space or a comment is the recursive
  call.
\<close>

partial_function (option) get_next_token :: "Lexer \<Rightarrow> (Token \<times> Lexer) option" where
  [code]: "get_next_token lx =
     (if current_char lx \<noteq> CHR 0x00 then
        let start_line = Lexer.line lx; start_column = Lexer.column lx in
        if isspace (current_char lx) then Option.bind (skip_whitespace lx) get_next_token
        else if current_char lx = CHR ''/'' \<and> peek lx = CHR ''/''
          then Option.bind (skip_line_comment lx) get_next_token
        else if current_char lx = CHR ''/'' \<and> peek lx = CHR ''*''
          then Option.bind (skip_block_comment lx) get_next_token
        else if isalpha (current_char lx) \<or> current_char lx = CHR ''_'' then read_identifier lx
        else if isdigit (current_char lx) then read_number lx
        else if current_char lx = CHR 0x22 then read_string lx
        else if current_char lx = CHR 0x27 then Some (read_char lx)
        else
          let current = current_char lx; next = peek lx in
          if current = CHR ''='' \<and> next = CHR ''=''
            then Some (create_token TOKEN_EQ ''=='' start_line start_column, advance (advance lx))
          else if current = CHR ''!'' \<and> next = CHR ''=''
            then Some (create_token TOKEN_NE ''!='' start_line start_column, advance (advance lx))
          else if current = CHR ''<'' \<and> next = CHR ''=''
            then Some (create_token TOKEN_LE ''<='' start_line start_column, advance (advance lx))
          else if current = CHR ''>'' \<and> next = CHR ''=''
            then Some (create_token TOKEN_GE ''>='' start_line start_column, advance (advance lx))
          else if current = CHR ''&'' \<and> next = CHR ''&''
            then Some (create_token TOKEN_AND ''&&'' start_line start_column, advance (advance lx))
          else if current = CHR ''|'' \<and> next = CHR ''|''
            then Some (create_token TOKEN_OR ''||'' start_line start_column, advance (advance lx))
          else Some (single_char_token current start_line start_column, advance lx)
      else Some (create_token TOKEN_EOF [] (Lexer.line lx) (Lexer.column lx), lx))"

text \<open>
  The state invariant of the specification: the offset is at most the length, and the
  lookahead is the byte at the offset, or the end sentinel at the end.
\<close>

definition lexer_inv :: "Lexer \<Rightarrow> bool" where
  "lexer_inv lx \<longleftrightarrow>
     pos lx \<le> length' lx
     \<and> (pos lx < length' lx \<longrightarrow> current_char lx = source_at (source lx) (pos lx))
     \<and> (pos lx = length' lx \<longrightarrow> current_char lx = CHR 0x00)"

text \<open>
  \<^verbatim>\<open>create_lexer\<close> also sets \<^verbatim>\<open>length\<close> to \<^verbatim>\<open>strlen(source)\<close>, and no operation writes
  either field: between the offset and the length there is no NUL byte.
\<close>

definition lexer_ok :: "Lexer \<Rightarrow> bool" where
  "lexer_ok lx \<longleftrightarrow> lexer_inv lx \<and> length' lx = strlen (source lx)"

text \<open>The input that is still unread: the bytes from the offset up to the length.\<close>

definition remaining :: "Lexer \<Rightarrow> string" where
  "remaining lx = drop (pos lx) (take (length' lx) (source lx))"

text \<open>\<open>steps lx lx'\<close>: \<open>lx'\<close> is a valid state of the same session, not behind \<open>lx\<close>.\<close>

definition steps :: "Lexer \<Rightarrow> Lexer \<Rightarrow> bool" where
  "steps lx lx' \<longleftrightarrow>
     source lx' = source lx \<and> length' lx' = length' lx \<and> pos lx \<le> pos lx' \<and> lexer_inv lx'"

text \<open>\<open>consumed lx xs lx'\<close>: \<open>lx'\<close> is \<open>lx\<close> after reading exactly the bytes \<open>xs\<close>.\<close>

definition consumed :: "Lexer \<Rightarrow> string \<Rightarrow> Lexer \<Rightarrow> bool" where
  "consumed lx xs lx' \<longleftrightarrow>
     lexer_ok lx \<and> lexer_ok lx' \<and> source lx' = source lx \<and> length' lx' = length' lx
     \<and> pos lx' = pos lx + length xs \<and> remaining lx = xs @ remaining lx'"





text \<open>\<open>get_next_token_n n\<close> is \<open>n + 1\<close> calls in a row; it returns the last token.\<close>

fun get_next_token_n :: "nat \<Rightarrow> Lexer \<Rightarrow> (Token \<times> Lexer) option" where
  "get_next_token_n 0 lx = get_next_token lx"
| "get_next_token_n (Suc n) lx =
     Option.bind (get_next_token lx) (\<lambda>r. get_next_token_n n (snd r))"

section \<open>Automata (nfa\_dfa.h, nfa\_dfa.c)\<close>

definition MAX_STATES :: nat where
  "MAX_STATES = 100"

definition MAX_ALPHABET :: nat where
  "MAX_ALPHABET = 128"

definition EPSILON :: int where
  "EPSILON = - 1"

text \<open>
  State numbers, counts and array indices are never negative in the C code and are
  natural numbers here; a transition symbol is an \<^verbatim>\<open>int\<close> (\<open>EPSILON\<close> is \<open>-1\<close>), and so
  is an entry of the DFA table (\<open>-1\<close> for no transition). The array \<^verbatim>\<open>transitions\<close> with
  its count \<^verbatim>\<open>num_transitions\<close> is one list, and so is every other array that comes with
  a count.
\<close>

record NFATransition =
  from_state :: nat
  to_state :: nat
  symbol :: int

record NFA =
  num_states :: nat
  start_state :: nat
  final_states :: "bool list"
  transitions :: "NFATransition list"

record DFA =
  transition :: "int list list"
  num_states :: nat
  start_state :: nat
  final_states :: "bool list"
  alphabet :: "char list"

text \<open>A \<^verbatim>\<open>StateSet\<close>: the first \<^verbatim>\<open>count\<close> entries of \<^verbatim>\<open>states\<close>, in insertion order.\<close>

type_synonym StateSet = "nat list"

text \<open>A run \<^verbatim>\<open>for (char c = lo; c <= hi; c++)\<close> over characters.\<close>

definition char_range :: "char \<Rightarrow> char \<Rightarrow> char list" where
  "char_range lo hi = map char_of [of_char lo ..< Suc (of_char hi)]"

definition create_nfa_for_identifier :: NFA where
  "create_nfa_for_identifier =
     \<lparr>NFA.num_states = 2,
      NFA.start_state = 0,
      NFA.final_states = (replicate MAX_STATES False)[1 := True],
      transitions =
        map (\<lambda>c. \<lparr>from_state = 0, to_state = 1, symbol = of_char c\<rparr>)
          (char_range (CHR ''a'') (CHR ''z'') @ char_range (CHR ''A'') (CHR ''Z'') @ ''_'')
        @ map (\<lambda>c. \<lparr>from_state = 1, to_state = 1, symbol = of_char c\<rparr>)
          (char_range (CHR ''a'') (CHR ''z'') @ char_range (CHR ''A'') (CHR ''Z'')
           @ char_range (CHR ''0'') (CHR ''9'') @ ''_'')\<rparr>"

definition state_set_contains :: "StateSet \<Rightarrow> nat \<Rightarrow> bool" where
  "state_set_contains set' state \<longleftrightarrow> list_ex (\<lambda>s. s = state) set'"

definition state_set_add :: "StateSet \<Rightarrow> nat \<Rightarrow> StateSet" where
  "state_set_add set' state =
     (if \<not> state_set_contains set' state \<and> length set' < MAX_STATES
      then set' @ [state] else set')"

definition state_set_equal :: "StateSet \<Rightarrow> StateSet \<Rightarrow> bool" where
  "state_set_equal a b \<longleftrightarrow>
     (if length a \<noteq> length b then False else list_all (\<lambda>s. state_set_contains b s) a)"

text \<open>
  The inner loop of \<^verbatim>\<open>epsilon_closure\<close> and of \<^verbatim>\<open>move\<close>: every transition that leaves
  \<open>state\<close> on \<open>symb\<close> adds its target.
\<close>

definition add_targets :: "NFA \<Rightarrow> nat \<Rightarrow> int \<Rightarrow> StateSet \<Rightarrow> StateSet" where
  "add_targets nfa state symb set' =
     fold (\<lambda>t acc. if from_state t = state \<and> symbol t = symb
                    then state_set_add acc (to_state t) else acc)
          (transitions nfa) set'"

text \<open>
  \<^verbatim>\<open>for (int i = 0; i < closure.count; i++)\<close>: the bound is read again in every round, so
  states added during the pass are visited in the same pass.
\<close>

function closure_pass :: "NFA \<Rightarrow> nat \<Rightarrow> StateSet \<Rightarrow> StateSet" where
  "closure_pass nfa i closure =
     (if i < length closure
      then closure_pass nfa (i + 1) (add_targets nfa (closure ! i) EPSILON closure)
      else closure)"
  by pat_completeness auto
termination
proof (relation "measure (\<lambda>(nfa, i, closure). max MAX_STATES (length closure) - i)")
  show "wf (measure (\<lambda>(nfa, i, closure). max MAX_STATES (length closure) - i))" by simp
next
  fix nfa :: NFA and i :: nat and closure :: StateSet
  assume lt: "i < length closure"
  have add: "length acc \<le> length (state_set_add acc x)
             \<and> length (state_set_add acc x) \<le> max MAX_STATES (length acc)" for acc x
    by (simp add: state_set_add_def)
  have "length acc \<le> length (fold (\<lambda>t acc. if from_state t = s \<and> symbol t = symb
                    then state_set_add acc (to_state t) else acc) ts acc)
        \<and> length (fold (\<lambda>t acc. if from_state t = s \<and> symbol t = symb
                    then state_set_add acc (to_state t) else acc) ts acc)
            \<le> max MAX_STATES (length acc)"
    for ts :: "NFATransition list" and acc s symb
  proof (induction ts arbitrary: acc)
    case Nil
    show ?case by simp
  next
    case (Cons t ts)
    show ?case using Cons.IH[of acc] Cons.IH[of "state_set_add acc (to_state t)"]
        add[of acc "to_state t"] by auto
  qed
  then have "length closure \<le> length (add_targets nfa (closure ! i) EPSILON closure)"
    "length (add_targets nfa (closure ! i) EPSILON closure) \<le> max MAX_STATES (length closure)"
    by (simp_all add: add_targets_def)
  then show "((nfa, i + 1, add_targets nfa (closure ! i) EPSILON closure), (nfa, i, closure))
        \<in> measure (\<lambda>(nfa, i, closure). max MAX_STATES (length closure) - i)"
    using lt by auto
qed

declare closure_pass.simps [simp del]

text \<open>
  \<^verbatim>\<open>epsilon_closure\<close>: \<^verbatim>\<open>closure\<close> starts as the argument; passes are repeated while a
  pass has made \<^verbatim>\<open>closure.count\<close> grow.
\<close>

function epsilon_closure :: "NFA \<Rightarrow> StateSet \<Rightarrow> StateSet" where
  "epsilon_closure nfa closure =
     (let closure' = closure_pass nfa 0 closure
      in if length closure' > length closure then epsilon_closure nfa closure' else closure')"
  by pat_completeness auto
termination
proof (relation "measure (\<lambda>(nfa, closure). MAX_STATES - length closure)")
  show "wf (measure (\<lambda>(nfa, closure). MAX_STATES - length closure))" by simp
next
  fix nfa :: NFA and closure closure' :: StateSet
  assume c: "closure' = closure_pass nfa 0 closure" and gr: "length closure < length closure'"
  have add: "length (state_set_add acc x) \<le> max MAX_STATES (length acc)" for acc x
    by (simp add: state_set_add_def)
  have "length (fold (\<lambda>t acc. if from_state t = s \<and> symbol t = symb
                    then state_set_add acc (to_state t) else acc) ts acc)
            \<le> max MAX_STATES (length acc)"
    for ts :: "NFATransition list" and acc s symb
  proof (induction ts arbitrary: acc)
    case Nil
    show ?case by simp
  next
    case (Cons t ts)
    show ?case using Cons.IH[of acc] Cons.IH[of "state_set_add acc (to_state t)"]
        add[of acc "to_state t"] by auto
  qed
  then have tg: "length (add_targets n s symb acc) \<le> max MAX_STATES (length acc)"
    for n s symb acc by (simp add: add_targets_def)
  have "length (closure_pass n i cl) \<le> max MAX_STATES (length cl)" for n i cl
  proof (induction n i cl rule: closure_pass.induct)
    case (1 n i cl)
    show ?case
    proof (cases "i < length cl")
      case True
      then show ?thesis using 1[OF True] tg[of n "cl ! i" EPSILON cl]
        by (subst closure_pass.simps) auto
    next
      case False
      then show ?thesis by (subst closure_pass.simps) simp
    qed
  qed
  from this[of nfa 0 closure] c gr
  show "((nfa, closure'), (nfa, closure)) \<in> measure (\<lambda>(nfa, closure). MAX_STATES - length closure)"
    by auto
qed

declare epsilon_closure.simps [simp del]

definition move :: "NFA \<Rightarrow> StateSet \<Rightarrow> int \<Rightarrow> StateSet" where
  "move nfa states symb = fold (\<lambda>state result. add_targets nfa state symb result) states []"

text \<open>\<^verbatim>\<open>find_state_set_index\<close>: the first index whose set is equal, or \<open>-1\<close>.\<close>

fun find_from :: "StateSet list \<Rightarrow> StateSet \<Rightarrow> nat \<Rightarrow> int" where
  "find_from [] target i = - 1"
| "find_from (s # sets) target i =
     (if state_set_equal s target then int i else find_from sets target (i + 1))"

definition find_state_set_index :: "StateSet list \<Rightarrow> StateSet \<Rightarrow> int" where
  "find_state_set_index sets target = find_from sets target 0"

text \<open>Writing \<^verbatim>\<open>table[state][symbol] = v\<close>.\<close>

definition set_transition :: "int list list \<Rightarrow> nat \<Rightarrow> nat \<Rightarrow> int \<Rightarrow> int list list" where
  "set_transition table state symb v = table[state := (table ! state)[symb := v]]"

text \<open>
  The body of the loop over the alphabet in \<^verbatim>\<open>nfa_to_dfa\<close>, for one symbol. The state
  of the construction is the list of subsets found (\<^verbatim>\<open>dfa_states\<close>), the work stack
  \<^verbatim>\<open>unmarked\<close> with its top at the head of the list, and the table. The C arrays
  \<^verbatim>\<open>dfa_states\<close> and \<^verbatim>\<open>unmarked\<close> hold \<open>MAX_STATES\<close> entries; storing one more is a write
  past the array, which is the result \<open>None\<close>.
\<close>

definition subset_step ::
  "NFA \<Rightarrow> nat \<Rightarrow> StateSet \<Rightarrow> char \<Rightarrow> StateSet list \<times> nat list \<times> int list list
     \<Rightarrow> (StateSet list \<times> nat list \<times> int list list) option" where
  "subset_step nfa current_dfa_state current_set symb st =
     (case st of (dfa_states, unmarked, table) \<Rightarrow>
        let next_set = move nfa current_set (of_char symb) in
        if length next_set > 0 then
          let next_set' = epsilon_closure nfa next_set;
              next_dfa_state = find_state_set_index dfa_states next_set'
          in if next_dfa_state = - 1 then
               if length dfa_states < MAX_STATES then
                 Some (dfa_states @ [next_set'], length dfa_states # unmarked,
                       set_transition table current_dfa_state (of_char symb)
                         (int (length dfa_states)))
               else None
             else Some (dfa_states, unmarked,
                        set_transition table current_dfa_state (of_char symb) next_dfa_state)
        else Some st)"

fun alphabet_loop ::
  "NFA \<Rightarrow> nat \<Rightarrow> StateSet \<Rightarrow> char list \<Rightarrow> StateSet list \<times> nat list \<times> int list list
     \<Rightarrow> (StateSet list \<times> nat list \<times> int list list) option" where
  "alphabet_loop nfa current_dfa_state current_set [] st = Some st"
| "alphabet_loop nfa current_dfa_state current_set (symb # rest) st =
     Option.bind (subset_step nfa current_dfa_state current_set symb st)
       (alphabet_loop nfa current_dfa_state current_set rest)"

text \<open>\<^verbatim>\<open>while (unmarked_count > 0)\<close>: pop a subset, run the alphabet over it.\<close>

partial_function (option) subset_loop ::
  "NFA \<Rightarrow> char list \<Rightarrow> StateSet list \<times> nat list \<times> int list list
     \<Rightarrow> (StateSet list \<times> int list list) option" where
  [code]: "subset_loop nfa alph st =
     (case st of (dfa_states, unmarked, table) \<Rightarrow>
        (case unmarked of
           [] \<Rightarrow> Some (dfa_states, table)
         | current_dfa_state # rest \<Rightarrow>
             Option.bind
               (alphabet_loop nfa current_dfa_state (dfa_states ! current_dfa_state) alph
                  (dfa_states, rest, table))
               (subset_loop nfa alph)))"

definition nfa_to_dfa :: "NFA \<Rightarrow> DFA option" where
  "nfa_to_dfa nfa =
     (let alph = char_range (CHR ''a'') (CHR ''z'') @ char_range (CHR ''A'') (CHR ''Z'')
                 @ char_range (CHR ''0'') (CHR ''9'') @ ''_'';
          initial_set = epsilon_closure nfa [NFA.start_state nfa]
      in Option.bind
           (subset_loop nfa alph
              ([initial_set], [0], replicate MAX_STATES (replicate MAX_ALPHABET (- 1))))
           (\<lambda>(dfa_states, table).
              Some \<lparr>transition = table,
                    DFA.num_states = length dfa_states,
                    DFA.start_state = 0,
                    DFA.final_states =
                      fold (\<lambda>i fs. if list_ex (\<lambda>s. NFA.final_states nfa ! s) (dfa_states ! i)
                                    then fs[i := True] else fs)
                        [0 ..< length dfa_states] (replicate MAX_STATES False),
                    alphabet = alph\<rparr>))"

text \<open>
  Running a DFA over a string, from a state: entry \<open>-1\<close> stops the run, and so does a
  byte that has no column in the table.
\<close>

fun dfa_run :: "DFA \<Rightarrow> int \<Rightarrow> string \<Rightarrow> int" where
  "dfa_run d s [] = s"
| "dfa_run d s (c # cs) =
     (if s = - 1 \<or> \<not> (of_char c :: nat) < MAX_ALPHABET then - 1
      else dfa_run d (transition d ! nat s ! of_char c) cs)"

definition dfa_accepts :: "DFA \<Rightarrow> string \<Rightarrow> bool" where
  "dfa_accepts d w \<longleftrightarrow>
     (let s = dfa_run d (int (DFA.start_state d)) w
      in s \<noteq> - 1 \<and> DFA.final_states d ! nat s)"

text \<open>
  The regular expression \<^verbatim>\<open>[A-Za-z_][A-Za-z_0-9]*\<close>: not empty, a letter or an underscore
  first, then letters, digits and underscores only.
\<close>

definition identifier_start :: "char \<Rightarrow> bool" where
  "identifier_start c \<longleftrightarrow> isalpha c \<or> c = CHR ''_''"

definition identifier_part :: "char \<Rightarrow> bool" where
  "identifier_part c \<longleftrightarrow> isalpha c \<or> isdigit c \<or> c = CHR ''_''"

definition matches_identifier :: "string \<Rightarrow> bool" where
  "matches_identifier w \<longleftrightarrow>
     w \<noteq> [] \<and> identifier_start (hd w) \<and> list_all identifier_part (tl w)"

text \<open>
  \<^verbatim>\<open>minimize_dfa\<close>. \<open>partition'\<close> lists the block number of the states below
  \<^verbatim>\<open>num_states\<close> (the rest of the C array is never read). The test of the loop over the
  alphabet, with its two \<^verbatim>\<open>break\<close>s, for the first state \<open>s1\<close> of a block and another
  state \<open>s2\<close> of it:
\<close>

definition distinguishable :: "DFA \<Rightarrow> nat list \<Rightarrow> nat \<Rightarrow> nat \<Rightarrow> bool" where
  "distinguishable dfa partition' s1 s2 \<longleftrightarrow>
     list_ex (\<lambda>symb.
        let next1 = transition dfa ! s1 ! of_char symb;
            next2 = transition dfa ! s2 ! of_char symb
        in (next1 = - 1) \<noteq> (next2 = - 1)
           \<or> (next1 \<noteq> - 1 \<and> next2 \<noteq> - 1
               \<and> partition' ! nat next1 \<noteq> partition' ! nat next2))
       (alphabet dfa)"

text \<open>
  The loop \<^verbatim>\<open>for (int i = 1; i < count; i++)\<close> over one block; the state carried along
  is \<^verbatim>\<open>new_partition\<close>, \<^verbatim>\<open>next_partition_id\<close> and \<^verbatim>\<open>changed\<close>.
\<close>

definition split_block ::
  "DFA \<Rightarrow> nat list \<Rightarrow> nat list \<Rightarrow> nat list \<times> nat \<times> bool \<Rightarrow> nat list \<times> nat \<times> bool" where
  "split_block dfa partition' states_in_partition st =
     fold (\<lambda>s2 (new_partition, next_partition_id, changed).
             if distinguishable dfa partition' (states_in_partition ! 0) s2
             then (new_partition[s2 := next_partition_id], next_partition_id + 1, True)
             else (new_partition, next_partition_id, changed))
          (drop 1 states_in_partition) st"

text \<open>One round of the \<^verbatim>\<open>while (changed)\<close> loop: the loop over the blocks.\<close>

definition refine_pass :: "DFA \<Rightarrow> nat list \<Rightarrow> nat \<Rightarrow> nat list \<times> nat \<times> bool" where
  "refine_pass dfa partition' num_partitions =
     fold (\<lambda>p st.
             let states_in_partition =
                   filter (\<lambda>i. partition' ! i = p) [0 ..< DFA.num_states dfa]
             in if length states_in_partition \<le> 1 then st
                else split_block dfa partition' states_in_partition st)
          [0 ..< num_partitions] (partition', num_partitions, False)"

partial_function (option) refine_loop :: "DFA \<Rightarrow> nat list \<Rightarrow> nat \<Rightarrow> (nat list \<times> nat) option" where
  [code]: "refine_loop dfa partition' num_partitions =
     (case refine_pass dfa partition' num_partitions of
        (new_partition, next_partition_id, changed) \<Rightarrow>
          if changed then refine_loop dfa new_partition next_partition_id
          else Some (new_partition, next_partition_id))"

text \<open>
  The loop that fills \<^verbatim>\<open>min_dfa\<close>, for one state \<open>i\<close> of the input: the accepting flag
  of its block \<open>p\<close>, then its transitions. The arrays of \<^verbatim>\<open>min_dfa\<close> have \<open>MAX_STATES\<close>
  rows and the C code does not compare \<open>p\<close> with that bound: a write to
  \<^verbatim>\<open>final_states[p]\<close> or \<^verbatim>\<open>transition[p][symbol]\<close> with \<open>p\<close> at or above \<open>MAX_STATES\<close>
  is a write past the array, which is the result \<open>None\<close>. A block at or above the bound
  whose states are not accepting and have no transition causes no write.
\<close>

definition build_state ::
  "DFA \<Rightarrow> nat list \<Rightarrow> nat \<Rightarrow> int list list \<times> bool list
     \<Rightarrow> (int list list \<times> bool list) option" where
  "build_state dfa partition' i st =
     (case st of (table, finals) \<Rightarrow>
        let p = partition' ! i in
        Option.bind
          (if DFA.final_states dfa ! i
           then (if p < MAX_STATES then Some (finals[p := True]) else None)
           else Some finals)
          (\<lambda>finals'.
             Option.bind
               (fold (\<lambda>symb acc.
                        Option.bind acc
                          (\<lambda>tb. let next = transition dfa ! i ! of_char symb
                                 in if next \<noteq> - 1
                                    then (if p < MAX_STATES
                                          then Some (set_transition tb p (of_char symb)
                                                       (int (partition' ! nat next)))
                                          else None)
                                    else Some tb))
                     (alphabet dfa) (Some table))
               (\<lambda>table'. Some (table', finals'))))"

text \<open>
  \<^verbatim>\<open>minimize_dfa\<close>: the refinement, then the construction of \<^verbatim>\<open>min_dfa\<close>. \<open>None\<close> is
  a write past an array of \<^verbatim>\<open>min_dfa\<close>, or a refinement that does not end.
\<close>

definition minimize_dfa :: "DFA \<Rightarrow> DFA option" where
  "minimize_dfa dfa =
     Option.bind
       (refine_loop dfa
          (map (\<lambda>i. if DFA.final_states dfa ! i then 1 else 0) [0 ..< DFA.num_states dfa]) 2)
       (\<lambda>(partition', num_partitions).
          Option.bind
            (fold (\<lambda>i acc. Option.bind acc (build_state dfa partition' i))
               [0 ..< DFA.num_states dfa]
               (Some (replicate MAX_STATES (replicate MAX_ALPHABET (- 1)),
                      replicate MAX_STATES False)))
            (\<lambda>(table, finals).
               Some \<lparr>transition = table,
                     DFA.num_states = num_partitions,
                     DFA.start_state = partition' ! DFA.start_state dfa,
                     DFA.final_states = finals,
                     alphabet = alphabet dfa\<rparr>))"

text \<open>
  A well-formed DFA: the arrays have their declared sizes, the declared states fit, the
  start state is declared, every symbol of the alphabet has a column, every entry of a
  declared state is \<open>-1\<close> or a declared state, and only declared states are accepting.
\<close>

definition dfa_wf :: "DFA \<Rightarrow> bool" where
  "dfa_wf dfa \<longleftrightarrow>
     length (transition dfa) = MAX_STATES
     \<and> list_all (\<lambda>row. length row = MAX_ALPHABET) (transition dfa)
     \<and> length (DFA.final_states dfa) = MAX_STATES
     \<and> length (alphabet dfa) \<le> MAX_ALPHABET
     \<and> list_all (\<lambda>c. (of_char c :: nat) < MAX_ALPHABET) (alphabet dfa)
     \<and> 0 < DFA.num_states dfa \<and> DFA.num_states dfa \<le> MAX_STATES
     \<and> DFA.start_state dfa < DFA.num_states dfa
     \<and> list_all (\<lambda>row. list_all (\<lambda>t. t = - 1 \<or> (0 \<le> t \<and> t < int (DFA.num_states dfa))) row)
          (take (DFA.num_states dfa) (transition dfa))
     \<and> list_all (\<lambda>b. \<not> b) (drop (DFA.num_states dfa) (DFA.final_states dfa))"

text \<open>Sample automata: a cycle of three epsilon transitions with a symbol on the side.\<close>

definition epsilon_cycle_nfa :: NFA where
  "epsilon_cycle_nfa =
     \<lparr>NFA.num_states = 4, NFA.start_state = 0,
      NFA.final_states = (replicate MAX_STATES False)[2 := True],
      transitions =
        [\<lparr>from_state = 0, to_state = 1, symbol = EPSILON\<rparr>,
         \<lparr>from_state = 1, to_state = 2, symbol = EPSILON\<rparr>,
         \<lparr>from_state = 2, to_state = 0, symbol = EPSILON\<rparr>,
         \<lparr>from_state = 2, to_state = 3, symbol = of_char (CHR ''a'')\<rparr>]\<rparr>"

text \<open>
  A DFA with the single state 0, which is the start state, and the single transition from
  0 to 0 on \<^verbatim>\<open>x\<close>; the state is accepting or not.
\<close>

definition self_loop_dfa :: "bool \<Rightarrow> DFA" where
  "self_loop_dfa accepting =
     \<lparr>transition =
        set_transition (replicate MAX_STATES (replicate MAX_ALPHABET (- 1))) 0
          (of_char (CHR ''x'')) 0,
      DFA.num_states = 1, DFA.start_state = 0,
      DFA.final_states = (replicate MAX_STATES False)[0 := accepting],
      alphabet = ''x''\<rparr>"

section \<open>The scanner always returns, in a valid state\<close>

lemma steps_refl: "lexer_inv lx \<Longrightarrow> steps lx lx"
  by (simp add: steps_def)

lemma steps_trans: "steps a b \<Longrightarrow> steps b c \<Longrightarrow> steps a c"
  by (auto simp: steps_def)

lemma advance_steps: "lexer_inv lx \<Longrightarrow> steps lx (advance lx)"
  by (auto simp: steps_def lexer_inv_def advance_def Let_def)

lemma advance_pos: "lexer_inv lx \<Longrightarrow> current_char lx \<noteq> CHR 0x00 \<Longrightarrow> pos (advance lx) = pos lx + 1"
  by (auto simp: lexer_inv_def advance_def Let_def)

lemma steps_inv: "steps lx lx' \<Longrightarrow> lexer_inv lx'"
  by (simp add: steps_def)

lemma steps_advance: "steps lx lx' \<Longrightarrow> steps lx (advance lx')"
  by (blast intro: steps_trans advance_steps steps_inv)

lemma advance_less:
  assumes "lexer_inv lx" "current_char lx \<noteq> CHR 0x00"
  shows "length' (advance lx) - pos (advance lx) < length' lx - pos lx"
proof -
  have "pos lx < length' lx" using assms by (auto simp: lexer_inv_def)
  moreover have "length' (advance lx) = length' lx"
    using advance_steps[OF assms(1)] by (simp add: steps_def)
  ultimately show ?thesis using advance_pos[OF assms] by simp
qed

lemma advance_while_steps:
  "lexer_inv lx \<Longrightarrow> \<exists>lx'. advance_while p lx = Some lx' \<and> steps lx lx'"
proof (induction "length' lx - pos lx" arbitrary: lx rule: less_induct)
  case less
  show ?case
  proof (cases "current_char lx \<noteq> CHR 0x00 \<and> p (current_char lx)")
    case True
    have st: "steps lx (advance lx)" using less.prems by (rule advance_steps)
    have "length' (advance lx) - pos (advance lx) < length' lx - pos lx"
      using less.prems True by (simp add: advance_less)
    from less.hyps[OF this steps_inv[OF st]]
    obtain lx' where "advance_while p (advance lx) = Some lx'" "steps (advance lx) lx'" by blast
    then show ?thesis using True st
      by (subst advance_while.simps) (auto intro: steps_trans)
  next
    case False
    then show ?thesis using less.prems
      by (subst advance_while.simps) (auto intro: steps_refl)
  qed
qed

lemma block_comment_loop_steps:
  "lexer_inv lx \<Longrightarrow> \<exists>lx'. block_comment_loop lx = Some lx' \<and> steps lx lx'"
proof (induction "length' lx - pos lx" arbitrary: lx rule: less_induct)
  case less
  have st: "steps lx (advance lx)" using less.prems by (rule advance_steps)
  show ?case
  proof (cases "current_char lx \<noteq> CHR 0x00")
    case True
    show ?thesis
    proof (cases "current_char lx = CHR ''*'' \<and> peek lx = CHR ''/''")
      case close: True
      then show ?thesis using True st
        by (subst block_comment_loop.simps) (auto intro: steps_advance)
    next
      case False
      have "length' (advance lx) - pos (advance lx) < length' lx - pos lx"
        using less.prems True by (simp add: advance_less)
      from less.hyps[OF this steps_inv[OF st]]
      obtain lx' where "block_comment_loop (advance lx) = Some lx'" "steps (advance lx) lx'"
        by blast
      then show ?thesis using True False st
        by (subst block_comment_loop.simps) (auto intro: steps_trans)
    qed
  next
    case False
    then show ?thesis using less.prems
      by (subst block_comment_loop.simps) (auto intro: steps_refl)
  qed
qed

lemma string_loop_steps:
  "lexer_inv lx \<Longrightarrow> \<exists>lx'. string_loop lx = Some lx' \<and> steps lx lx'"
proof (induction "length' lx - pos lx" arbitrary: lx rule: less_induct)
  case less
  have st: "steps lx (advance lx)" using less.prems by (rule advance_steps)
  show ?case
  proof (cases "current_char lx \<noteq> CHR 0x00 \<and> current_char lx \<noteq> CHR 0x22")
    case True
    have lt: "length' (advance lx) - pos (advance lx) < length' lx - pos lx"
      using less.prems True by (simp add: advance_less)
    define nx where
      "nx = (if current_char lx = CHR 0x5C
             then (if current_char (advance lx) \<noteq> CHR 0x00 then advance (advance lx) else advance lx)
             else advance lx)"
    have st2: "steps (advance lx) nx"
      using st by (auto simp: nx_def intro: steps_refl steps_inv advance_steps)
    then have "length' nx - pos nx < length' lx - pos lx"
      using lt unfolding steps_def by linarith
    from less.hyps[OF this steps_inv[OF st2]]
    obtain lx' where "string_loop nx = Some lx'" "steps nx lx'" by blast
    then have "string_loop nx = Some lx'" "steps lx lx'"
      using st st2 by (auto intro: steps_trans)
    moreover have "string_loop lx = string_loop nx"
      using True by (subst string_loop.simps) (simp add: nx_def Let_def)
    ultimately show ?thesis by simp
  next
    case False
    then show ?thesis using less.prems
      by (subst string_loop.simps) (auto intro: steps_refl)
  qed
qed


lemma read_identifier_steps:
  assumes "lexer_inv lx"
  shows "\<exists>tok lx'. read_identifier lx = Some (tok, lx') \<and> steps lx lx'"
proof -
  obtain lx1 where "advance_while (\<lambda>c. isalnum c \<or> c = CHR ''_'') lx = Some lx1" "steps lx lx1"
    using advance_while_steps[OF assms] by blast
  then show ?thesis by (simp add: read_identifier_def Let_def)
qed

lemma read_number_steps:
  assumes "lexer_inv lx"
  shows "\<exists>tok lx'. read_number lx = Some (tok, lx') \<and> steps lx lx'"
proof (cases "current_char lx = CHR ''0'' \<and> (peek lx = CHR ''x'' \<or> peek lx = CHR ''X'')")
  case True
  have s0: "steps lx (advance (advance lx))"
    using assms by (blast intro: advance_steps steps_advance)
  obtain lx1 where "advance_while isxdigit (advance (advance lx)) = Some lx1"
    "steps (advance (advance lx)) lx1"
    using advance_while_steps[OF steps_inv[OF s0]] by blast
  then show ?thesis using True s0
    by (auto simp add: read_number_def Let_def intro: steps_trans)
next
  case False
  obtain lx1 where 1: "advance_while isdigit lx = Some lx1" and s1: "steps lx lx1"
    using advance_while_steps[OF assms] by blast
  obtain lx2 f2 where 2:
    "(if current_char lx1 = CHR ''.'' \<and> isdigit (peek lx1)
      then do { l \<leftarrow> advance_while isdigit (advance lx1); Some (l, True) }
      else Some (lx1, False)) = Some (lx2, f2)" and s2: "steps lx1 lx2"
  proof (cases "current_char lx1 = CHR ''.'' \<and> isdigit (peek lx1)")
    case True
    have a: "steps lx1 (advance lx1)" using s1 by (blast intro: advance_steps steps_inv)
    obtain l where "advance_while isdigit (advance lx1) = Some l" "steps (advance lx1) l"
      using advance_while_steps[OF steps_inv[OF a]] by blast
    then show ?thesis using True a that[of l True] by (auto intro: steps_trans)
  next
    case False
    moreover have "steps lx1 lx1" using s1 by (blast intro: steps_refl steps_inv)
    ultimately show ?thesis using that[of lx1 False] by auto
  qed
  obtain lx3 f3 where 3:
    "(if current_char lx2 = CHR ''e'' \<or> current_char lx2 = CHR ''E''
      then do { let l = advance lx2;
                let l' = (if current_char l = CHR ''+'' \<or> current_char l = CHR ''-''
                          then advance l else l);
                l'' \<leftarrow> advance_while isdigit l';
                Some (l'', True) }
      else Some (lx2, f2)) = Some (lx3, f3)" and s3: "steps lx2 lx3"
  proof (cases "current_char lx2 = CHR ''e'' \<or> current_char lx2 = CHR ''E''")
    case True
    define l' where "l' = (if current_char (advance lx2) = CHR ''+'' \<or> current_char (advance lx2) = CHR ''-''
                          then advance (advance lx2) else advance lx2)"
    have a: "steps lx2 l'" using s2
      by (auto simp: l'_def intro: advance_steps steps_inv steps_advance)
    obtain l'' where "advance_while isdigit l' = Some l''" "steps l' l''"
      using advance_while_steps[OF steps_inv[OF a]] by blast
    then show ?thesis using True a that[of l'' True]
      by (auto simp: l'_def Let_def intro: steps_trans)
  next
    case False
    moreover have "steps lx2 lx2" using s2 by (blast intro: steps_refl steps_inv)
    ultimately show ?thesis using that[of lx2 f2] by auto
  qed
  have "steps lx lx3" using s1 s2 s3 by (blast intro: steps_trans)
  then show ?thesis using 1 2 3
    by (simp add: read_number_def Let_def False)
qed

lemma read_string_steps:
  assumes "lexer_inv lx"
  shows "\<exists>tok lx'. read_string lx = Some (tok, lx') \<and> steps lx lx'"
proof -
  have a: "steps lx (advance lx)" using assms by (rule advance_steps)
  obtain lx1 where "string_loop (advance lx) = Some lx1" "steps (advance lx) lx1"
    using string_loop_steps[OF steps_inv[OF a]] by blast
  then show ?thesis using a
    by (auto simp: read_string_def Let_def intro: steps_trans steps_advance)
qed

lemma read_char_steps:
  assumes "lexer_inv lx"
  shows "steps lx (snd (read_char lx))"
  using assms
  by (auto simp: read_char_def Let_def split: prod.splits if_splits
           intro!: steps_advance advance_steps)

lemma skip_whitespace_steps:
  assumes "lexer_inv lx" "current_char lx \<noteq> CHR 0x00" "isspace (current_char lx)"
  shows "\<exists>lx'. skip_whitespace lx = Some lx' \<and> steps lx lx' \<and> pos lx < pos lx'"
proof -
  have a: "steps lx (advance lx)" using assms(1) by (rule advance_steps)
  obtain lx' where "advance_while isspace (advance lx) = Some lx'" "steps (advance lx) lx'"
    using advance_while_steps[OF steps_inv[OF a]] by blast
  moreover have "skip_whitespace lx = advance_while isspace (advance lx)"
    unfolding skip_whitespace_def using assms by (subst advance_while.simps) simp
  ultimately show ?thesis using a advance_pos[OF assms(1,2)]
    by (auto simp: steps_def)
qed

lemma skip_line_comment_steps:
  assumes "lexer_inv lx" "current_char lx \<noteq> CHR 0x00"
  shows "\<exists>lx'. skip_line_comment lx = Some lx' \<and> steps lx lx' \<and> pos lx < pos lx'"
proof -
  have a: "steps lx (advance lx)" using assms(1) by (rule advance_steps)
  have b: "steps (advance lx) (advance (advance lx))"
    using a by (blast intro: advance_steps steps_inv)
  obtain lx1 where 1: "advance_while (\<lambda>c. c \<noteq> CHR 0x0A) (advance (advance lx)) = Some lx1"
    and c: "steps (advance (advance lx)) lx1"
    using advance_while_steps[OF steps_inv[OF b]] by blast
  have d: "steps lx1 (if current_char lx1 = CHR 0x0A then advance lx1 else lx1)"
    using c by (auto intro: advance_steps steps_inv steps_refl)
  show ?thesis using 1 a b c d advance_pos[OF assms]
    by (auto simp: skip_line_comment_def steps_def)
qed

lemma skip_block_comment_steps:
  assumes "lexer_inv lx" "current_char lx \<noteq> CHR 0x00"
  shows "\<exists>lx'. skip_block_comment lx = Some lx' \<and> steps lx lx' \<and> pos lx < pos lx'"
proof -
  have a: "steps lx (advance lx)" using assms(1) by (rule advance_steps)
  have b: "steps (advance lx) (advance (advance lx))"
    using a by (blast intro: advance_steps steps_inv)
  obtain lx1 where 1: "block_comment_loop (advance (advance lx)) = Some lx1"
    and c: "steps (advance (advance lx)) lx1"
    using block_comment_loop_steps[OF steps_inv[OF b]] by blast
  show ?thesis using 1 a b c advance_pos[OF assms]
    by (auto simp: skip_block_comment_def steps_def)
qed

lemma get_next_token_steps:
  "lexer_inv lx \<Longrightarrow> \<exists>tok lx'. get_next_token lx = Some (tok, lx') \<and> steps lx lx'"
proof (induction "length' lx - pos lx" arbitrary: lx rule: less_induct)
  case less
  note inv = less.prems
  define P where "P = (\<lambda>x::(Token \<times> Lexer) option. \<exists>tok lx'. x = Some (tok, lx') \<and> steps lx lx')"
  have P_if: "P (if c then a else b)" if "c \<Longrightarrow> P a" "\<not> c \<Longrightarrow> P b" for c a b
    using that by simp
  have rec: "P (Option.bind sk get_next_token)"
    if "\<exists>l. sk = Some l \<and> steps lx l \<and> pos lx < pos l" for sk
  proof -
    from that obtain l where l: "sk = Some l" "steps lx l" "pos lx < pos l" by blast
    have "pos lx < length' lx" using l by (auto simp: steps_def lexer_inv_def)
    then have "length' l - pos l < length' lx - pos lx" using l by (auto simp: steps_def)
    from less.hyps[OF this steps_inv[OF l(2)]] l show ?thesis
      by (auto simp: P_def intro: steps_trans)
  qed
  show ?case
  proof (cases "current_char lx \<noteq> CHR 0x00")
    case False
    then show ?thesis using inv
      by (subst get_next_token.simps) (auto intro: steps_refl)
  next
    case True
    have ws: "isspace (current_char lx) \<Longrightarrow> P (Option.bind (skip_whitespace lx) get_next_token)"
      using inv True by (intro rec skip_whitespace_steps)
    have lc: "P (Option.bind (skip_line_comment lx) get_next_token)"
      using inv True by (intro rec skip_line_comment_steps)
    have bc: "P (Option.bind (skip_block_comment lx) get_next_token)"
      using inv True by (intro rec skip_block_comment_steps)
    have ri: "P (read_identifier lx)" and rn: "P (read_number lx)" and rs: "P (read_string lx)"
      unfolding P_def using inv
      by (intro read_identifier_steps read_number_steps read_string_steps; assumption)+
    have rc: "P (Some (read_char lx))"
      unfolding P_def using read_char_steps[OF inv] by (cases "read_char lx") auto
    have a1: "P (Some (t, advance lx))" and a2: "P (Some (t, advance (advance lx)))" for t
      unfolding P_def using inv by (auto intro: advance_steps steps_advance)
    have "P (get_next_token lx)"
      apply (subst get_next_token.simps)
      apply (simp only: True if_True Let_def not_False_eq_True)
      apply (intro P_if ws lc bc ri rn rs rc a1 a2)
      apply assumption
      done
    then show ?thesis by (simp add: P_def)
  qed
qed

section \<open>The unread input\<close>

lemma take_strlen: "take (strlen s) s = c_str s"
  unfolding strlen_def c_str_def by (rule takeWhile_eq_take[symmetric])

lemma c_str_no_nul: "CHR 0x00 \<notin> set (c_str s)"
  unfolding c_str_def by (auto dest: set_takeWhileD)

lemma strlen_le: "strlen s \<le> length s"
  unfolding strlen_def c_str_def by (rule length_takeWhile_le)

lemma c_str_id: "CHR 0x00 \<notin> set s \<Longrightarrow> c_str s = s"
  unfolding c_str_def by (induction s) auto

lemma remaining_no_nul: "lexer_ok lx \<Longrightarrow> CHR 0x00 \<notin> set (remaining lx)"
  using c_str_no_nul[of "source lx"]
  by (auto simp: lexer_ok_def remaining_def take_strlen dest: in_set_dropD)

lemma remaining_Nil: "lexer_ok lx \<Longrightarrow> remaining lx = [] \<longleftrightarrow> pos lx = length' lx"
  using strlen_le[of "source lx"] by (auto simp: lexer_ok_def remaining_def lexer_inv_def)

lemma current_char_Nil: "lexer_ok lx \<Longrightarrow> remaining lx = [] \<Longrightarrow> current_char lx = CHR 0x00"
  by (simp add: remaining_Nil) (simp add: lexer_ok_def lexer_inv_def)

lemma remaining_nth:
  assumes "lexer_ok lx" "i < length (remaining lx)"
  shows "source_at (source lx) (pos lx + i) = remaining lx ! i" "pos lx + i < length' lx"
proof -
  have "length' lx \<le> length (source lx)" using assms(1) strlen_le by (simp add: lexer_ok_def)
  then show "pos lx + i < length' lx" using assms(2) by (simp add: remaining_def)
  then show "source_at (source lx) (pos lx + i) = remaining lx ! i"
    using \<open>length' lx \<le> length (source lx)\<close> by (simp add: remaining_def source_at_def)
qed

lemma current_char_Cons:
  assumes "lexer_ok lx" "remaining lx = c # r"
  shows "current_char lx = c" "c \<noteq> CHR 0x00" "pos lx < length' lx"
proof -
  have "0 < length (remaining lx)" using assms(2) by simp
  from remaining_nth[OF assms(1) this] show "pos lx < length' lx" by simp
  with remaining_nth(1)[OF assms(1) \<open>0 < length (remaining lx)\<close>] assms
  show "current_char lx = c" by (simp add: lexer_ok_def lexer_inv_def)
  show "c \<noteq> CHR 0x00" using remaining_no_nul[OF assms(1)] assms(2) by auto
qed

lemma peek_Cons2: "lexer_ok lx \<Longrightarrow> remaining lx = a # b # r \<Longrightarrow> peek lx = b"
  using remaining_nth[of lx 1] by (simp add: peek_def)



lemma steps_ok: "lexer_ok lx \<Longrightarrow> steps lx lx' \<Longrightarrow> lexer_ok lx'"
  by (simp add: lexer_ok_def steps_def)

lemma consumed_refl: "lexer_ok lx \<Longrightarrow> consumed lx [] lx"
  by (simp add: consumed_def)

lemma consumed_trans: "consumed a xs b \<Longrightarrow> consumed b ys c \<Longrightarrow> consumed a (xs @ ys) c"
  by (simp add: consumed_def)

lemma consumed_advance:
  assumes "lexer_ok lx" "remaining lx = c # r"
  shows "consumed lx [c] (advance lx)"
proof -
  have st: "steps lx (advance lx)" using assms(1) by (simp add: lexer_ok_def advance_steps)
  have p: "pos (advance lx) = pos lx + 1"
    using assms current_char_Cons[OF assms] by (simp add: advance_pos lexer_ok_def)
  have "remaining (advance lx) = r"
    using st p assms(2) by (simp add: remaining_def steps_def flip: drop_drop add.commute)
       (metis One_nat_def drop0 drop_Suc_Cons drop_drop plus_1_eq_Suc)
  then show ?thesis using st p assms steps_ok[OF assms(1) st]
    by (simp add: consumed_def steps_def)
qed

lemma consumed_remaining: "consumed lx xs lx' \<Longrightarrow> remaining lx = xs @ ys \<Longrightarrow> remaining lx' = ys"
  by (simp add: consumed_def)

lemma consumed_substr:
  assumes "consumed lx xs lx'"
  shows "substr (source lx') (pos lx) (pos lx' - pos lx) = xs"
proof -
  have ok: "lexer_ok lx" and r: "remaining lx = xs @ remaining lx'"
    and p: "pos lx' - pos lx = length xs" and s: "source lx' = source lx"
    using assms by (simp_all add: consumed_def)
  have le: "pos lx + length xs \<le> length' lx"
    using assms by (simp add: consumed_def lexer_ok_def lexer_inv_def)
  have "take (length xs) (drop (pos lx) (source lx)) = take (length xs) (remaining lx)"
    using le by (simp add: remaining_def take_drop min_def)
  also have "\<dots> = xs" using r by simp
  finally have "take (length xs) (drop (pos lx) (source lx)) = xs" .
  moreover have "CHR 0x00 \<notin> set xs" using remaining_no_nul[OF ok] r by auto
  ultimately show ?thesis by (simp add: substr_def p s c_str_id)
qed

lemma consumed_advance_while:
  assumes "lexer_ok lx" "remaining lx = xs @ ys" "\<forall>x\<in>set xs. p x"
    "ys = [] \<or> \<not> p (hd ys)"
  shows "\<exists>lx'. advance_while p lx = Some lx' \<and> consumed lx xs lx'"
  using assms
proof (induction xs arbitrary: lx)
  case Nil
  have "current_char lx = CHR 0x00 \<or> \<not> p (current_char lx)"
  proof (cases ys)
    case Nil
    then show ?thesis using Nil.prems current_char_Nil by simp
  next
    case (Cons y ys')
    then show ?thesis using Nil.prems current_char_Cons(1)[of lx y ys'] by simp
  qed
  then show ?case using Nil.prems(1)
    by (subst advance_while.simps) (auto intro: consumed_refl)
next
  case (Cons x xs)
  have cc: "current_char lx = x" "x \<noteq> CHR 0x00"
    using current_char_Cons[of lx x "xs @ ys"] Cons.prems by simp_all
  have c1: "consumed lx [x] (advance lx)"
    using consumed_advance[of lx x "xs @ ys"] Cons.prems by simp
  then have "lexer_ok (advance lx)" "remaining (advance lx) = xs @ ys"
    using Cons.prems(2) by (simp_all add: consumed_def)
  from Cons.IH[OF this] Cons.prems obtain lx' where
    "advance_while p (advance lx) = Some lx'" "consumed (advance lx) xs lx'" by auto
  then show ?case using cc Cons.prems(3) consumed_trans[OF c1, of xs lx']
    by (subst advance_while.simps) simp
qed

section \<open>End of input, the invariant, the empty character literal\<close>

lemma create_lexer_inv: "lexer_inv (create_lexer src)"
proof (cases src)
  case Nil
  then show ?thesis by (simp add: lexer_inv_def create_lexer_def strlen_def c_str_def source_at_def)
next
  case (Cons c cs)
  then show ?thesis
    by (simp add: lexer_inv_def create_lexer_def strlen_def c_str_def source_at_def)
qed

lemma create_lexer_ok: "lexer_ok (create_lexer src)"
  using create_lexer_inv[of src] by (simp add: lexer_ok_def) (simp add: create_lexer_def)

lemma remaining_create_lexer: "remaining (create_lexer src) = c_str src"
  by (simp add: remaining_def create_lexer_def take_strlen)

lemma advance_ok:
  assumes "lexer_ok lx"
  shows "lexer_ok (advance lx)" "source (advance lx) = source lx"
    "length' (advance lx) = length' lx"
  using assms advance_steps[of lx] by (simp_all add: lexer_ok_def steps_def)

lemma get_next_token_ok:
  assumes "lexer_ok lx"
  shows "\<exists>tok lx'. get_next_token lx = Some (tok, lx') \<and> lexer_ok lx'
           \<and> source lx' = source lx \<and> length' lx' = length' lx \<and> pos lx \<le> pos lx'"
proof -
  from assms have "lexer_inv lx" by (simp add: lexer_ok_def)
  from get_next_token_steps[OF this] obtain tok lx' where
    "get_next_token lx = Some (tok, lx')" "steps lx lx'" by blast
  then show ?thesis using assms by (auto simp: steps_def lexer_ok_def)
qed

text \<open>
  Claim C8. For every source string \<open>src\<close>, \<open>create_lexer\<close> builds the state over that
  string (\<open>source\<close> is \<open>src\<close>, the length is \<open>strlen src\<close>, the offset is 0) and the
  state invariant holds of it: the offset is at most the length of the source, the
  lookahead is the byte of the source at the offset, or NUL when the offset is the length.
  From every state that satisfies the invariant, \<open>advance\<close> leads to a state that satisfies
  it, and \<open>get_next_token\<close> returns, in a state that satisfies it; neither changes the
  source or the length, nor moves the offset back. This holds for the invariant relative to
  the length field (\<open>lexer_inv\<close>) and with the length field tied to the source string
  (\<open>lexer_ok\<close>).
\<close>

theorem scanner_invariant:
  "lexer_ok (create_lexer src)
   \<and> source (create_lexer src) = src \<and> length' (create_lexer src) = strlen src
   \<and> pos (create_lexer src) = 0
   \<and> (lexer_inv lx \<longrightarrow>
        lexer_inv (advance lx) \<and> source (advance lx) = source lx
        \<and> length' (advance lx) = length' lx \<and> pos lx \<le> pos (advance lx)
        \<and> (\<exists>tok lx'. get_next_token lx = Some (tok, lx') \<and> lexer_inv lx'
              \<and> source lx' = source lx \<and> length' lx' = length' lx \<and> pos lx \<le> pos lx'))
   \<and> (lexer_ok lx \<longrightarrow>
        lexer_ok (advance lx)
        \<and> (\<exists>tok lx'. get_next_token lx = Some (tok, lx') \<and> lexer_ok lx'
              \<and> source lx' = source lx \<and> length' lx' = length' lx \<and> pos lx \<le> pos lx'))"
proof (intro conjI impI)
  show "lexer_ok (create_lexer src)" by (rule create_lexer_ok)
  show "source (create_lexer src) = src" "length' (create_lexer src) = strlen src"
    "pos (create_lexer src) = 0"
    by (simp_all add: create_lexer_def)
next
  assume inv: "lexer_inv lx"
  from advance_steps[OF inv]
  show "lexer_inv (advance lx)" "source (advance lx) = source lx"
    "length' (advance lx) = length' lx" "pos lx \<le> pos (advance lx)"
    by (simp_all add: steps_def)
  from get_next_token_steps[OF inv]
  show "\<exists>tok lx'. get_next_token lx = Some (tok, lx') \<and> lexer_inv lx'
              \<and> source lx' = source lx \<and> length' lx' = length' lx \<and> pos lx \<le> pos lx'"
    by (auto simp: steps_def)
next
  assume ok: "lexer_ok lx"
  show "lexer_ok (advance lx)" using ok by (rule advance_ok)
  show "\<exists>tok lx'. get_next_token lx = Some (tok, lx') \<and> lexer_ok lx'
              \<and> source lx' = source lx \<and> length' lx' = length' lx \<and> pos lx \<le> pos lx'"
    using ok by (rule get_next_token_ok)
qed

theorem scanner_invariant_witness:
  "lexer_ok (create_lexer ''x = 1;'') \<and> lexer_inv (create_lexer ''x = 1;'')
   \<and> source (create_lexer ''x = 1;'') = ''x = 1;''
   \<and> length' (create_lexer ''x = 1;'') = 6
   \<and> lexer_ok (advance (create_lexer ''x = 1;''))
   \<and> map_option (lexer_ok \<circ> snd) (get_next_token (create_lexer ''x = 1;'')) = Some True
   \<and> map_option (source \<circ> snd) (get_next_token (create_lexer ''x = 1;'')) = Some ''x = 1;''
   \<and> map_option (length' \<circ> snd) (get_next_token (create_lexer ''x = 1;'')) = Some 6"
proof -
  have ok: "lexer_ok (create_lexer ''x = 1;'')" by (rule create_lexer_ok)
  then have inv: "lexer_inv (create_lexer ''x = 1;'')" by (simp add: lexer_ok_def)
  have s: "source (create_lexer ''x = 1;'') = ''x = 1;''"
    and l: "length' (create_lexer ''x = 1;'') = 6"
    by (simp_all add: create_lexer_def strlen_def c_str_def)
  show ?thesis
    using scanner_invariant[of "''x = 1;''" "create_lexer ''x = 1;''"] ok inv
    by (auto simp: s l)
qed

text \<open>
  Claim C1. At the end of the input (offset equal to length, in a state that satisfies the
  invariant) \<open>get_next_token\<close> returns an EOF token and leaves the state as it is, and so
  does every further call: \<open>n + 1\<close> calls in a row end with an EOF token and the state
  they started from, so the offset never passes the length.
\<close>
theorem eof_idempotent:
  assumes "lexer_inv lx" and "pos lx = length' lx"
  shows "\<exists>tok. get_next_token_n n lx = Some (tok, lx) \<and> type tok = TOKEN_EOF \<and> lexeme tok = []"
proof -
  have cc: "current_char lx = CHR 0x00" using assms by (simp add: lexer_inv_def)
  have one: "get_next_token lx = Some (create_token TOKEN_EOF [] (Lexer.line lx) (Lexer.column lx), lx)"
    by (subst get_next_token.simps) (simp add: cc)
  have "get_next_token_n n lx = Some (create_token TOKEN_EOF [] (Lexer.line lx) (Lexer.column lx), lx)"
    by (induction n) (simp_all add: one)
  then show ?thesis by (simp add: create_token_def c_str_def)
qed

theorem eof_idempotent_witness:
  "lexer_inv (create_lexer []) \<and> pos (create_lexer []) = length' (create_lexer [])
   \<and> map_option (type \<circ> fst) (get_next_token_n 3 (create_lexer [])) = Some TOKEN_EOF
   \<and> map_option snd (get_next_token_n 3 (create_lexer [])) = Some (create_lexer [])"
proof -
  have a: "lexer_inv (create_lexer [])" by (rule create_lexer_inv)
  have b: "pos (create_lexer []) = length' (create_lexer [])"
    by (simp add: create_lexer_def strlen_def c_str_def)
  show ?thesis using a b eof_idempotent[OF a b, of 3] by auto
qed

text \<open>
  Claim C9. When the lookahead is a single quote and the next byte is a single quote too
  (the empty character literal), \<open>get_next_token\<close> returns a CHAR\_CONST token whose
  lexeme is the two quotes and whose character value is NUL, not an ERROR token, and has
  read the two quotes.
\<close>
theorem empty_char_literal:
  assumes "lexer_inv lx" and "current_char lx = CHR 0x27" and "peek lx = CHR 0x27"
  shows "get_next_token lx =
           Some (\<lparr>type = TOKEN_CHAR_CONST, lexeme = [CHR 0x27, CHR 0x27],
                  line = Lexer.line lx, column = Lexer.column lx,
                  value' = CharValue (CHR 0x00)\<rparr>, advance (advance lx))"
proof -
  have p1: "pos lx + 1 < length' lx" using assms(3) by (auto simp: peek_def split: if_splits)
  have s1: "source_at (source lx) (pos lx + 1) = CHR 0x27"
    using assms(3) by (auto simp: peek_def split: if_splits)
  have s0: "source_at (source lx) (pos lx) = CHR 0x27"
    using assms(1,2) p1 by (simp add: lexer_inv_def)
  have l1: "pos lx + 1 < length (source lx)"
    using s1 by (auto simp: source_at_def split: if_splits)
  have n0: "source lx ! pos lx = CHR 0x27" and n1: "source lx ! (pos lx + 1) = CHR 0x27"
    using s0 s1 l1 by (simp_all add: source_at_def)
  have a1: "advance lx = lx\<lparr>column := Lexer.column lx + 1, pos := pos lx + 1, current_char := CHR 0x27\<rparr>"
    using p1 s1 assms(2) by (simp add: advance_def Let_def)
  have a2: "current_char (advance lx) = CHR 0x27" "pos (advance (advance lx)) = pos lx + 2"
    "source (advance (advance lx)) = source lx"
    using p1 by (simp_all add: a1) (simp_all add: advance_def Let_def)
  have "take 2 (drop (pos lx) (source lx)) = [CHR 0x27, CHR 0x27]"
    using l1 n0 n1 by (simp add: take_Suc_conv_app_nth numeral_2_eq_2 Cons_nth_drop_Suc[symmetric])
  then have sub: "substr (source lx) (pos lx) 2 = [CHR 0x27, CHR 0x27]"
    by (simp add: substr_def c_str_def)
  have rc: "read_char lx = (\<lparr>type = TOKEN_CHAR_CONST, lexeme = [CHR 0x27, CHR 0x27],
                  line = Lexer.line lx, column = Lexer.column lx,
                  value' = CharValue (CHR 0x00)\<rparr>, advance (advance lx))"
    using a2 sub by (simp add: read_char_def Let_def create_token_def c_str_def)
  show ?thesis
    by (subst get_next_token.simps)
       (simp add: assms(2) rc isspace_def isalpha_def isdigit_def)
qed

theorem empty_char_literal_witness:
  "lexer_inv (create_lexer [CHR 0x27, CHR 0x27, CHR ''a''])
   \<and> current_char (create_lexer [CHR 0x27, CHR 0x27, CHR ''a'']) = CHR 0x27
   \<and> peek (create_lexer [CHR 0x27, CHR 0x27, CHR ''a'']) = CHR 0x27
   \<and> map_option fst (get_next_token (create_lexer [CHR 0x27, CHR 0x27, CHR ''a''])) =
       Some \<lparr>type = TOKEN_CHAR_CONST, lexeme = [CHR 0x27, CHR 0x27], line = 1, column = 1,
              value' = CharValue (CHR 0x00)\<rparr>"
proof -
  let ?lx = "create_lexer [CHR 0x27, CHR 0x27, CHR ''a'']"
  have a: "lexer_inv ?lx" by (rule create_lexer_inv)
  have b: "current_char ?lx = CHR 0x27" by (simp add: create_lexer_def source_at_def)
  have c: "peek ?lx = CHR 0x27"
    by (simp add: create_lexer_def peek_def source_at_def strlen_def c_str_def)
  have d: "Lexer.line ?lx = 1" "Lexer.column ?lx = 1" by (simp_all add: create_lexer_def)
  show ?thesis using a b c empty_char_literal[OF a b c] by (simp add: d)
qed

section \<open>Unterminated block comments\<close>













section \<open>A dot after a decimal number\<close>


lemma isdigit_facts:
  assumes "isdigit c"
  shows "\<not> isspace c" "c \<noteq> CHR ''/''" "\<not> isalpha c" "c \<noteq> CHR ''_''" "c \<noteq> CHR 0x00"
    "c \<noteq> CHR ''x''" "c \<noteq> CHR ''X''" "isxdigit c" "c \<noteq> CHR ''.''"
  using assms by (auto simp: isdigit_def isspace_def isalpha_def isxdigit_def)







section \<open>Hexadecimal literals\<close>

lemma isxdigit_facts:
  assumes "isxdigit c"
  shows "digit_value c < 16" "c \<noteq> CHR 0x00" "\<not> isspace c" "c \<noteq> CHR ''-''" "c \<noteq> CHR ''+''"
  using assms by (auto simp: isxdigit_def digit_value_def isdigit_def isspace_def)

lemma x_facts:
  assumes "x = CHR ''x'' \<or> x = CHR ''X''"
  shows "x \<noteq> CHR 0x00" "\<not> digit_value x < 16"
  using assms by (auto simp: digit_value_def isdigit_def)

lemma zero_facts:
  "isdigit (CHR ''0'')" "digit_value (CHR ''0'') = 0" "\<not> isspace (CHR ''0'')"
  by (simp_all add: isdigit_def digit_value_def isspace_def)

lemma takeWhile_all: "\<forall>c\<in>set xs. p c \<Longrightarrow> takeWhile p xs = xs"
  by (induction xs) auto

lemma strtoll_hex:
  assumes "x = CHR ''x'' \<or> x = CHR ''X''" "\<forall>c\<in>set hs. isxdigit c"
  shows "strtoll (CHR ''0'' # x # hs) 16 = min LLONG_MAX (base_value 16 hs)"
proof (cases hs)
  case Nil
  then show ?thesis using x_facts[OF assms(1)]
    by (simp add: strtoll_def zero_facts base_value_def)
next
  case (Cons h hs')
  have "isxdigit h" using assms(2) Cons by simp
  moreover have "takeWhile (\<lambda>c. digit_value c < 16) hs = hs"
    using assms(2) by (intro takeWhile_all) (simp add: isxdigit_facts(1))
  ultimately show ?thesis using assms(1) Cons
    by (auto simp add: strtoll_def zero_facts Let_def)
qed

lemma read_number_hex:
  assumes "lexer_ok lx" "remaining lx = CHR ''0'' # x # hs @ rest"
    "x = CHR ''x'' \<or> x = CHR ''X''" "\<forall>c\<in>set hs. isxdigit c"
    "rest = [] \<or> \<not> isxdigit (hd rest)"
  shows "\<exists>lx1. get_next_token lx =
            Some (\<lparr>type = TOKEN_INT_CONST, lexeme = CHR ''0'' # x # hs,
                   line = Lexer.line lx, column = Lexer.column lx,
                   value' = IntValue (min LLONG_MAX (base_value 16 hs))\<rparr>, lx1)
          \<and> consumed lx (CHR ''0'' # x # hs) lx1"
proof -
  have cc: "current_char lx = CHR ''0''" using current_char_Cons(1)[OF assms(1,2)] .
  have pk: "peek lx = x" using peek_Cons2[OF assms(1,2)] .
  have c1: "consumed lx ''0'' (advance lx)" using consumed_advance[OF assms(1,2)] .
  then have ok1: "lexer_ok (advance lx)" and r1: "remaining (advance lx) = x # hs @ rest"
    using assms(2) by (simp_all add: consumed_def)
  have c2: "consumed (advance lx) [x] (advance (advance lx))" using consumed_advance[OF ok1 r1] .
  then have ok2: "lexer_ok (advance (advance lx))"
    and r2: "remaining (advance (advance lx)) = hs @ rest"
    using r1 by (simp_all add: consumed_def)
  obtain lx1 where w: "advance_while isxdigit (advance (advance lx)) = Some lx1"
    and c3: "consumed (advance (advance lx)) hs lx1"
    using consumed_advance_while[OF ok2 r2 assms(4,5)] by blast
  have c: "consumed lx (CHR ''0'' # x # hs) lx1"
    using consumed_trans[OF consumed_trans[OF c1 c2] c3] by simp
  have sub: "substr (source lx1) (pos lx) (pos lx1 - pos lx) = CHR ''0'' # x # hs"
    using consumed_substr[OF c] .
  have "CHR 0x00 \<notin> set (CHR ''0'' # x # hs)"
    using assms(4) isxdigit_facts(2) x_facts(1)[OF assms(3)] by auto
  then have cs: "c_str (CHR ''0'' # x # hs) = CHR ''0'' # x # hs" by (rule c_str_id)
  have "read_number lx =
          Some (\<lparr>type = TOKEN_INT_CONST, lexeme = CHR ''0'' # x # hs,
                 line = Lexer.line lx, column = Lexer.column lx,
                 value' = IntValue (min LLONG_MAX (base_value 16 hs))\<rparr>, lx1)"
    using assms(3)
    by (simp add: read_number_def Let_def cc pk w sub create_token_def cs
          strtoll_hex[OF assms(3,4)])
  moreover have "get_next_token lx = read_number lx"
    by (subst get_next_token.simps) (simp add: cc isdigit_facts[OF zero_facts(1)] zero_facts)
  ultimately show ?thesis using c by simp
qed

text \<open>
  Claim C7, as amended. When the unread input is \<^verbatim>\<open>0x\<close> or \<^verbatim>\<open>0X\<close>, then a run of
  hexadecimal digits, then either nothing or a byte that is not a hexadecimal digit,
  \<open>get_next_token\<close> returns an INT\_CONST token whose lexeme is the prefix with the digits
  and stops right behind the digits (no dot and no exponent is read). Its integer value is
  the base-16 value of the digits when that value fits a \<^verbatim>\<open>long long\<close>, and
  \<open>LLONG_MAX\<close> when it does not.
\<close>
theorem hex_literal:
  assumes "lexer_ok lx"
    and "remaining lx = CHR ''0'' # x # hs @ rest"
    and "x = CHR ''x'' \<or> x = CHR ''X''"
    and "\<forall>c\<in>set hs. isxdigit c"
    and "rest = [] \<or> \<not> isxdigit (hd rest)"
  shows "\<exists>lx1. get_next_token lx =
            Some (\<lparr>type = TOKEN_INT_CONST, lexeme = CHR ''0'' # x # hs,
                   line = Lexer.line lx, column = Lexer.column lx,
                   value' = IntValue (min LLONG_MAX (base_value 16 hs))\<rparr>, lx1)
          \<and> pos lx1 = pos lx + 2 + length hs
          \<and> remaining lx1 = rest"
proof -
  from read_number_hex[OF assms] obtain lx1 where
    g: "get_next_token lx =
            Some (\<lparr>type = TOKEN_INT_CONST, lexeme = CHR ''0'' # x # hs,
                   line = Lexer.line lx, column = Lexer.column lx,
                   value' = IntValue (min LLONG_MAX (base_value 16 hs))\<rparr>, lx1)"
    and c: "consumed lx (CHR ''0'' # x # hs) lx1" by blast
  have "pos lx1 = pos lx + 2 + length hs" "remaining lx1 = rest"
    using c assms(2) by (simp_all add: consumed_def)
  then show ?thesis using g by simp
qed

lemma base_value_1A2B: "base_value 16 ''1A2B'' = 6699"
  by (simp add: base_value_def digit_value_def isdigit_def)

theorem hex_literal_witness:
  "lexer_ok (create_lexer ''0x1A2B.5'')
   \<and> remaining (create_lexer ''0x1A2B.5'') = CHR ''0'' # CHR ''x'' # ''1A2B'' @ ''.5''
   \<and> isxdigit (CHR ''1'') \<and> isxdigit (CHR ''A'') \<and> isxdigit (CHR ''2'')
   \<and> isxdigit (CHR ''B'') \<and> \<not> isxdigit (CHR ''.'')
   \<and> map_option fst (get_next_token (create_lexer ''0x1A2B.5'')) =
       Some \<lparr>type = TOKEN_INT_CONST, lexeme = ''0x1A2B'', line = 1, column = 1,
              value' = IntValue 6699\<rparr>
   \<and> map_option (remaining \<circ> snd) (get_next_token (create_lexer ''0x1A2B.5'')) = Some ''.5''"
proof -
  let ?lx = "create_lexer ''0x1A2B.5''"
  have a: "lexer_ok ?lx" by (rule create_lexer_ok)
  have b: "remaining ?lx = CHR ''0'' # CHR ''x'' # ''1A2B'' @ ''.5''"
    by (simp add: remaining_create_lexer c_str_def)
  have c: "CHR ''x'' = CHR ''x'' \<or> CHR ''x'' = CHR ''X''" by simp
  have d: "\<forall>c\<in>set ''1A2B''. isxdigit c" by (simp add: isxdigit_def isdigit_def)
  have e: "''.5'' = [] \<or> \<not> isxdigit (hd ''.5'')" by (simp add: isxdigit_def isdigit_def)
  have f: "Lexer.line ?lx = 1" "Lexer.column ?lx = 1" by (simp_all add: create_lexer_def)
  from hex_literal[OF a b c d e] a b d e show ?thesis
    by (auto simp: f base_value_1A2B LLONG_MAX_def)
qed

lemma base_value_F16: "base_value 16 ''FFFFFFFFFFFFFFFF'' = 18446744073709551615"
  by (simp add: base_value_def digit_value_def isdigit_def)

text \<open>
  The claim as first stated (the value is the base-16 value of the digits, for every
  hexadecimal literal) fails for sixteen digits \<^verbatim>\<open>F\<close>: the value stored is \<open>2^63 - 1\<close>.
\<close>

theorem hex_literal_saturates_counterexample:
  "map_option (value' \<circ> fst) (get_next_token (create_lexer ''0xFFFFFFFFFFFFFFFF''))
     = Some (IntValue 9223372036854775807)
   \<and> map_option (value' \<circ> fst) (get_next_token (create_lexer ''0xFFFFFFFFFFFFFFFF''))
     \<noteq> Some (IntValue (base_value 16 ''FFFFFFFFFFFFFFFF''))"
proof -
  let ?lx = "create_lexer ''0xFFFFFFFFFFFFFFFF''"
  have a: "lexer_ok ?lx" by (rule create_lexer_ok)
  have b: "remaining ?lx = CHR ''0'' # CHR ''x'' # ''FFFFFFFFFFFFFFFF'' @ []"
    by (simp add: remaining_create_lexer c_str_def)
  have c: "CHR ''x'' = CHR ''x'' \<or> CHR ''x'' = CHR ''X''" by simp
  have d: "\<forall>c\<in>set ''FFFFFFFFFFFFFFFF''. isxdigit c" by (simp add: isxdigit_def isdigit_def)
  from read_number_hex[OF a b c d] show ?thesis
    by (auto simp: base_value_F16 LLONG_MAX_def)
qed

section \<open>The epsilon closure\<close>

lemma state_set_add_prefix: "\<exists>zs. state_set_add cl x = cl @ zs"
  by (simp add: state_set_add_def)

lemma add_targets_prefix: "\<exists>zs. add_targets nfa s symb cl = cl @ zs"
proof -
  have "\<exists>zs. fold (\<lambda>t acc. if from_state t = s \<and> symbol t = symb
                    then state_set_add acc (to_state t) else acc) ts acc = acc @ zs"
    for ts :: "NFATransition list" and acc
  proof (induction ts arbitrary: acc)
    case Nil
    show ?case by simp
  next
    case (Cons t ts)
    show ?case
    proof (cases "from_state t = s \<and> symbol t = symb")
      case True
      obtain z1 where z1: "state_set_add acc (to_state t) = acc @ z1"
        using state_set_add_prefix by blast
      from Cons.IH[of "acc @ z1"] obtain z2 where
        "fold (\<lambda>t acc. if from_state t = s \<and> symbol t = symb
                    then state_set_add acc (to_state t) else acc) ts (acc @ z1) = (acc @ z1) @ z2"
        by blast
      then show ?thesis using True z1 by simp
    next
      case False
      show ?thesis using Cons.IH[of acc] by (simp add: False)
    qed
  qed
  then show ?thesis by (simp add: add_targets_def)
qed

lemma closure_pass_prefix: "\<exists>zs. closure_pass nfa i cl = cl @ zs"
proof (induction nfa i cl rule: closure_pass.induct)
  case (1 nfa i cl)
  show ?case
  proof (cases "i < length cl")
    case True
    obtain z1 where z1: "add_targets nfa (cl ! i) EPSILON cl = cl @ z1"
      using add_targets_prefix by blast
    from 1[OF True] obtain z2 where
      "closure_pass nfa (i + 1) (add_targets nfa (cl ! i) EPSILON cl)
         = add_targets nfa (cl ! i) EPSILON cl @ z2" by blast
    then show ?thesis using True z1 by (subst closure_pass.simps) simp
  next
    case False
    then show ?thesis by (subst closure_pass.simps) simp
  qed
qed

lemma closure_pass_same_length:
  assumes "length (closure_pass nfa 0 cl) \<le> length cl"
  shows "closure_pass nfa 0 cl = cl"
proof -
  obtain zs where "closure_pass nfa 0 cl = cl @ zs" using closure_pass_prefix by blast
  then show ?thesis using assms by simp
qed

lemma epsilon_closure_prefix: "\<exists>zs. epsilon_closure nfa cl = cl @ zs"
proof (induction nfa cl rule: epsilon_closure.induct)
  case (1 nfa cl)
  obtain z1 where z1: "closure_pass nfa 0 cl = cl @ z1" using closure_pass_prefix by blast
  show ?case
  proof (cases "length cl < length (closure_pass nfa 0 cl)")
    case True
    from 1[OF refl True] obtain z2 where
      "epsilon_closure nfa (closure_pass nfa 0 cl) = closure_pass nfa 0 cl @ z2" by blast
    then show ?thesis using True z1 by (subst epsilon_closure.simps) (simp add: Let_def)
  next
    case False
    then show ?thesis using z1 by (subst epsilon_closure.simps) (simp add: Let_def)
  qed
qed

lemma epsilon_closure_fixed:
  "closure_pass nfa 0 (epsilon_closure nfa cl) = epsilon_closure nfa cl"
proof (induction nfa cl rule: epsilon_closure.induct)
  case (1 nfa cl)
  show ?case
  proof (cases "length cl < length (closure_pass nfa 0 cl)")
    case True
    have "epsilon_closure nfa cl = epsilon_closure nfa (closure_pass nfa 0 cl)"
      using True by (subst epsilon_closure.simps) (simp add: Let_def)
    then show ?thesis using 1[OF refl True] by simp
  next
    case False
    then have same: "closure_pass nfa 0 cl = cl" by (intro closure_pass_same_length) simp
    have "epsilon_closure nfa cl = cl"
      using False same by (subst epsilon_closure.simps) (simp add: Let_def)
    then show ?thesis using same by simp
  qed
qed

lemma epsilon_closure_idem_list:
  "epsilon_closure nfa (epsilon_closure nfa cl) = epsilon_closure nfa cl"
  by (subst epsilon_closure.simps) (simp add: Let_def epsilon_closure_fixed)

text \<open>
  Claim C10. For every NFA and every state set \<open>S\<close>, the result of \<open>epsilon_closure\<close>
  contains every state of \<open>S\<close>, and applying \<open>epsilon_closure\<close> to that result gives the
  same set of states again.
\<close>

theorem epsilon_closure_extensive_idempotent:
  "set S \<subseteq> set (epsilon_closure nfa S)
   \<and> set (epsilon_closure nfa (epsilon_closure nfa S)) = set (epsilon_closure nfa S)"
proof
  obtain zs where "epsilon_closure nfa S = S @ zs" using epsilon_closure_prefix by blast
  then show "set S \<subseteq> set (epsilon_closure nfa S)" by simp
  show "set (epsilon_closure nfa (epsilon_closure nfa S)) = set (epsilon_closure nfa S)"
    by (simp add: epsilon_closure_idem_list)
qed

theorem epsilon_closure_extensive_idempotent_witness:
  "epsilon_closure (epsilon_cycle_nfa) [0] = [0, 1, 2]
   \<and> set [0] \<subseteq> set (epsilon_closure epsilon_cycle_nfa [0])
   \<and> set (epsilon_closure epsilon_cycle_nfa (epsilon_closure epsilon_cycle_nfa [0])) = {0, 1, 2}"
proof -
  have e: "epsilon_closure (epsilon_cycle_nfa) [0] = [0, 1, 2]" by code_simp
  show ?thesis using epsilon_closure_extensive_idempotent[of "[0]" epsilon_cycle_nfa]
    by (auto simp: e)
qed

section \<open>The identifier NFA\<close>

lemma in_char_range:
  "c \<in> set (char_range lo hi) \<longleftrightarrow>
     (of_char lo :: nat) \<le> of_char c \<and> (of_char c :: nat) \<le> of_char hi"
proof
  assume "c \<in> set (char_range lo hi)"
  then obtain n :: nat where n: "of_char lo \<le> n" "n \<le> of_char hi" "c = char_of n"
    by (auto simp: char_range_def)
  have "n < 256" using n(2) nat_of_char_less_256[of hi] by linarith
  then have "(of_char c :: nat) = n" using n(3) by simp
  then show "(of_char lo :: nat) \<le> of_char c \<and> (of_char c :: nat) \<le> of_char hi"
    using n by simp
next
  assume a: "(of_char lo :: nat) \<le> of_char c \<and> (of_char c :: nat) \<le> of_char hi"
  have "c = char_of (of_char c :: nat)" by simp
  then show "c \<in> set (char_range lo hi)"
    unfolding char_range_def using a by (metis (no_types, lifting) atLeastLessThan_iff image_eqI less_Suc_eq_le list.set_map set_upt)
qed

lemma in_letters:
  "c \<in> set (char_range (CHR ''a'') (CHR ''z'') @ char_range (CHR ''A'') (CHR ''Z'') @ ''_'')
     \<longleftrightarrow> isalpha c \<or> c = CHR ''_''"
  by (auto simp: in_char_range isalpha_def)

lemma in_alnums:
  "c \<in> set (char_range (CHR ''a'') (CHR ''z'') @ char_range (CHR ''A'') (CHR ''Z'')
             @ char_range (CHR ''0'') (CHR ''9'') @ ''_'')
     \<longleftrightarrow> isalpha c \<or> isdigit c \<or> c = CHR ''_''"
  by (auto simp: in_char_range isalpha_def isdigit_def)

lemma state_set_add_idem:
  "state_set_add (state_set_add acc x) x = state_set_add acc x"
  by (simp add: state_set_add_def state_set_contains_def list_ex_iff)

lemma fold_add_map:
  "fold (\<lambda>t acc. if from_state t = s \<and> symbol t = y
                  then state_set_add acc (to_state t) else acc)
        (map (\<lambda>c. \<lparr>from_state = f, to_state = t, symbol = of_char c\<rparr>) cs) acc
   = (if f = s \<and> (\<exists>c\<in>set cs. of_char c = y) then state_set_add acc t else acc)"
proof (induction cs arbitrary: acc)
  case Nil
  show ?case by simp
next
  case (Cons c cs)
  show ?case by (auto simp add: Cons.IH state_set_add_idem)
qed

lemma add_targets_identifier:
  "add_targets create_nfa_for_identifier s y acc =
     (if s = 0 \<and> (\<exists>c. identifier_start c \<and> of_char c = y)
      then state_set_add acc (Suc 0)
      else if s = Suc 0 \<and> (\<exists>c. identifier_part c \<and> of_char c = y)
      then state_set_add acc (Suc 0) else acc)"
proof -
  have 1: "(\<exists>c\<in>set (char_range (CHR ''a'') (CHR ''z'') @ char_range (CHR ''A'') (CHR ''Z'') @ ''_'').
              of_char c = y) \<longleftrightarrow> (\<exists>c. identifier_start c \<and> of_char c = y)"
    unfolding Bex_def in_letters identifier_start_def by blast
  have 2: "(\<exists>c\<in>set (char_range (CHR ''a'') (CHR ''z'') @ char_range (CHR ''A'') (CHR ''Z'')
             @ char_range (CHR ''0'') (CHR ''9'') @ ''_'').
              of_char c = y) \<longleftrightarrow> (\<exists>c. identifier_part c \<and> of_char c = y)"
    unfolding Bex_def in_alnums identifier_part_def by blast
  show ?thesis
    unfolding add_targets_def create_nfa_for_identifier_def NFA.simps fold_append o_apply
      fold_add_map 1 2
    by auto
qed

lemma of_char_not_epsilon: "(of_char c :: int) \<noteq> EPSILON"
proof -
  have "(0::int) \<le> of_char c" by (cases c) simp
  then show ?thesis by (simp add: EPSILON_def)
qed

lemma add_targets_identifier_epsilon [simp]:
  "add_targets create_nfa_for_identifier s EPSILON acc = acc"
  using of_char_not_epsilon by (auto simp: add_targets_identifier)

lemma closure_pass_identifier [simp]: "closure_pass create_nfa_for_identifier i cl = cl"
proof (induction "length cl - i" arbitrary: i)
  case 0
  then show ?case by (subst closure_pass.simps) simp
next
  case (Suc n)
  then have "n = length cl - (i + 1)" "i < length cl" by simp_all
  then show ?case using Suc.hyps(1)[of "i + 1"] by (subst closure_pass.simps) simp
qed

lemma epsilon_closure_identifier [simp]: "epsilon_closure create_nfa_for_identifier cl = cl"
  by (subst epsilon_closure.simps) simp

lemma move_identifier_0:
  "move create_nfa_for_identifier [0] (of_char c) = (if identifier_start c then [Suc 0] else [])"
  by (simp add: move_def add_targets_identifier state_set_add_def state_set_contains_def
      MAX_STATES_def)

lemma move_identifier_1:
  "move create_nfa_for_identifier [Suc 0] (of_char c) =
     (if identifier_part c then [Suc 0] else [])"
  by (simp add: move_def add_targets_identifier state_set_add_def state_set_contains_def
      MAX_STATES_def)

section \<open>The subset construction on the identifier NFA\<close>

lemma find_identifier_sets:
  "find_state_set_index [[0]] [Suc 0] = - 1" "find_state_set_index [[0], [Suc 0]] [Suc 0] = 1"
  by (simp_all add: find_state_set_index_def state_set_equal_def state_set_contains_def)

lemma subset_step_identifier_new:
  assumes "identifier_start c"
  shows "subset_step create_nfa_for_identifier 0 [0] c ([[0]], um, T) =
           Some ([[0], [Suc 0]], Suc 0 # um, set_transition T 0 (of_char c) 1)"
  using assms
  by (simp add: subset_step_def move_identifier_0 find_identifier_sets MAX_STATES_def Let_def)

lemma subset_step_identifier_0:
  "subset_step create_nfa_for_identifier 0 [0] c ([[0], [Suc 0]], um, T) =
     Some ([[0], [Suc 0]], um,
           if identifier_start c then set_transition T 0 (of_char c) 1 else T)"
  by (simp add: subset_step_def move_identifier_0 find_identifier_sets Let_def)

lemma subset_step_identifier_1:
  "subset_step create_nfa_for_identifier (Suc 0) [Suc 0] c ([[0], [Suc 0]], um, T) =
     Some ([[0], [Suc 0]], um,
           if identifier_part c then set_transition T (Suc 0) (of_char c) 1 else T)"
  by (simp add: subset_step_def move_identifier_1 find_identifier_sets Let_def)

lemma alphabet_loop_identifier_0:
  "alphabet_loop create_nfa_for_identifier 0 [0] syms ([[0], [Suc 0]], um, T) =
     Some ([[0], [Suc 0]], um,
           fold (\<lambda>c T. if identifier_start c then set_transition T 0 (of_char c) 1 else T)
             syms T)"
  by (induction syms arbitrary: T) (simp_all add: subset_step_identifier_0)

lemma alphabet_loop_identifier_1:
  "alphabet_loop create_nfa_for_identifier (Suc 0) [Suc 0] syms ([[0], [Suc 0]], um, T) =
     Some ([[0], [Suc 0]], um,
           fold (\<lambda>c T. if identifier_part c then set_transition T (Suc 0) (of_char c) 1 else T)
             syms T)"
  by (induction syms arbitrary: T) (simp_all add: subset_step_identifier_1)

lemma alphabet_loop_identifier_start:
  assumes "identifier_start c"
  shows "alphabet_loop create_nfa_for_identifier 0 [0] (c # syms) ([[0]], um, T) =
     Some ([[0], [Suc 0]], Suc 0 # um,
           fold (\<lambda>c T. if identifier_start c then set_transition T 0 (of_char c) 1 else T)
             (c # syms) T)"
  using assms by (simp add: subset_step_identifier_new alphabet_loop_identifier_0)

lemma subset_loop_identifier:
  assumes "identifier_start c"
  shows "subset_loop create_nfa_for_identifier (c # syms) ([[0]], [0], T) =
     Some ([[0], [Suc 0]],
           fold (\<lambda>c T. if identifier_part c then set_transition T (Suc 0) (of_char c) 1 else T)
             (c # syms)
             (fold (\<lambda>c T. if identifier_start c then set_transition T 0 (of_char c) 1 else T)
                (c # syms) T))"
  apply (subst subset_loop.simps)
  apply (simp only: prod.case list.case nth_Cons_0 alphabet_loop_identifier_start[OF assms]
      Option.bind.simps)
  apply (subst subset_loop.simps)
  apply (simp only: prod.case list.case nth_Cons_Suc nth_Cons_0
      alphabet_loop_identifier_1 Option.bind.simps)
  apply (subst subset_loop.simps)
  apply (simp only: prod.case list.case)
  done

lemma set_transition_length [simp]:
  "length (set_transition T r j v) = length T"
  by (simp add: set_transition_def)

lemma set_transition_row_length [simp]:
  "length (set_transition T r j v ! r') = length (T ! r')"
  by (cases "r < length T"; cases "r' = r") (simp_all add: set_transition_def list_update_beyond)

lemma set_transition_nth:
  "r' < length T \<Longrightarrow>
   set_transition T r j v ! r' ! i =
     (if r' = r \<and> i = j \<and> j < length (T ! r) then v else T ! r' ! i)"
  by (cases "r' = r"; cases "i = j"; cases "j < length (T ! r)")
     (simp_all add: set_transition_def list_update_beyond)

lemma fold_set_transition:
  "length (fold (\<lambda>c T. if P c then set_transition T r (of_char c) v else T) syms T) = length T
   \<and> length (fold (\<lambda>c T. if P c then set_transition T r (of_char c) v else T) syms T ! r')
       = length (T ! r')
   \<and> (r' < length T \<longrightarrow>
        fold (\<lambda>c T. if P c then set_transition T r (of_char c) v else T) syms T ! r' ! i =
          (if r' = r \<and> i < length (T ! r) \<and> (\<exists>c\<in>set syms. P c \<and> of_char c = i)
           then v else T ! r' ! i))"
proof (induction syms arbitrary: T)
  case Nil
  show ?case by simp
next
  case (Cons c syms)
  show ?case
  proof (cases "P c")
    case True
    show ?thesis
      using Cons.IH[of "set_transition T r (of_char c) v"] True
      by (auto simp: set_transition_nth)
  next
    case False
    then show ?thesis using Cons.IH[of T] by auto
  qed
qed

section \<open>The language of the identifier DFA\<close>

lemma char_range_Cons:
  "(of_char lo :: nat) \<le> of_char hi \<Longrightarrow>
   char_range lo hi = lo # map char_of [Suc (of_char lo) ..< Suc (of_char hi)]"
  unfolding char_range_def by (subst upt_conv_Cons) simp_all

lemma identifier_fields:
  "NFA.start_state create_nfa_for_identifier = 0"
  "NFA.final_states create_nfa_for_identifier = (replicate MAX_STATES False)[1 := True]"
  by (simp_all add: create_nfa_for_identifier_def)

lemma identifier_part_code: "identifier_part c \<Longrightarrow> (of_char c :: nat) < MAX_ALPHABET"
  by (auto simp: identifier_part_def isalpha_def isdigit_def MAX_ALPHABET_def)

lemma identifier_start_part: "identifier_start c \<Longrightarrow> identifier_part c"
  by (auto simp add: identifier_start_def identifier_part_def)

lemma nfa_to_dfa_identifier:
  "\<exists>d. nfa_to_dfa create_nfa_for_identifier = Some d
       \<and> DFA.start_state d = 0 \<and> DFA.num_states d = 2
       \<and> \<not> DFA.final_states d ! 0 \<and> DFA.final_states d ! 1
       \<and> (\<forall>c. (of_char c :: nat) < MAX_ALPHABET \<longrightarrow>
              transition d ! 0 ! of_char c = (if identifier_start c then 1 else - 1))
       \<and> (\<forall>c. (of_char c :: nat) < MAX_ALPHABET \<longrightarrow>
              transition d ! 1 ! of_char c = (if identifier_part c then 1 else - 1))"
proof -
  define alph where "alph = char_range (CHR ''a'') (CHR ''z'') @ char_range (CHR ''A'') (CHR ''Z'')
                 @ char_range (CHR ''0'') (CHR ''9'') @ ''_''"
  define T0 where "T0 = replicate MAX_STATES (replicate MAX_ALPHABET (- 1 :: int))"
  define T1 where
    "T1 = fold (\<lambda>c T. if identifier_start c then set_transition T 0 (of_char c) 1 else T) alph T0"
  define T2 where
    "T2 = fold (\<lambda>c T. if identifier_part c then set_transition T (Suc 0) (of_char c) 1 else T)
            alph T1"
  have in_alph: "c \<in> set alph \<longleftrightarrow> identifier_part c" for c
    unfolding alph_def in_alnums identifier_part_def ..
  obtain syms where alph_Cons: "alph = CHR ''a'' # syms"
    by (simp add: alph_def char_range_Cons[of "CHR ''a''" "CHR ''z''"])
  have a: "identifier_start (CHR ''a'')" by (simp add: identifier_start_def isalpha_def)
  have loop: "subset_loop create_nfa_for_identifier alph ([[0]], [0], T0) = Some ([[0], [Suc 0]], T2)"
    unfolding T2_def T1_def alph_Cons by (rule subset_loop_identifier[OF a])
  have lenT1: "length T1 = MAX_STATES" and rowT1: "length (T1 ! r') = length (T0 ! r')" for r'
    using fold_set_transition[of identifier_start 0 1 alph T0 r'] by (simp_all add: T1_def T0_def)
  have T1_0: "T1 ! 0 ! of_char c = (if identifier_start c then 1 else - 1)"
    and T1_1: "T1 ! Suc 0 ! of_char c = - 1"
    if "(of_char c :: nat) < MAX_ALPHABET" for c
  proof -
    have "(\<exists>c'\<in>set alph. identifier_start c' \<and> (of_char c' :: nat) = of_char c)
            \<longleftrightarrow> identifier_start c"
      using in_alph identifier_start_part by auto
    then show "T1 ! 0 ! of_char c = (if identifier_start c then 1 else - 1)"
      using fold_set_transition[of identifier_start 0 1 alph T0 0 "of_char c"] that
      by (simp add: T1_def) (simp add: T0_def MAX_STATES_def)
    show "T1 ! Suc 0 ! of_char c = - 1"
      using fold_set_transition[of identifier_start 0 1 alph T0 "Suc 0" "of_char c"] that
      by (simp add: T1_def) (simp add: T0_def MAX_STATES_def)
  qed
  have T2_0: "T2 ! 0 ! of_char c = (if identifier_start c then 1 else - 1)"
    and T2_1: "T2 ! Suc 0 ! of_char c = (if identifier_part c then 1 else - 1)"
    if "(of_char c :: nat) < MAX_ALPHABET" for c
  proof -
    show "T2 ! 0 ! of_char c = (if identifier_start c then 1 else - 1)"
      using fold_set_transition[of identifier_part "Suc 0" 1 alph T1 0 "of_char c"] that
      by (simp add: T2_def[symmetric] lenT1 T1_0 MAX_STATES_def)
    have "(\<exists>c'\<in>set alph. identifier_part c' \<and> (of_char c' :: nat) = of_char c)
            \<longleftrightarrow> identifier_part c"
      using in_alph by auto
    moreover have "of_char c < length (T1 ! Suc 0)"
      using that by (simp add: rowT1) (simp add: T0_def MAX_STATES_def)
    ultimately show "T2 ! Suc 0 ! of_char c = (if identifier_part c then 1 else - 1)"
      using fold_set_transition[of identifier_part "Suc 0" 1 alph T1 "Suc 0" "of_char c"] that
      by (simp add: T2_def[symmetric] lenT1 T1_1 MAX_STATES_def)
  qed
  have fin: "fold (\<lambda>i fs. if list_ex (\<lambda>s. NFA.final_states create_nfa_for_identifier ! s)
                               ([[0], [Suc 0]] ! i)
                          then fs[i := True] else fs)
               [0 ..< length [[0::nat], [Suc 0]]] (replicate MAX_STATES False)
             = (replicate MAX_STATES False)[1 := True]"
    by (simp add: identifier_fields MAX_STATES_def upt_rec)
  have "nfa_to_dfa create_nfa_for_identifier =
          Some \<lparr>transition = T2, DFA.num_states = 2, DFA.start_state = 0,
                 DFA.final_states = (replicate MAX_STATES False)[1 := True],
                 alphabet = alph\<rparr>"
    unfolding nfa_to_dfa_def
    by (simp only: Let_def identifier_fields(1) epsilon_closure_identifier
          alph_def[symmetric] T0_def[symmetric] loop Option.bind.simps prod.case fin)
       simp
  then show ?thesis using T2_0 T2_1 by (simp add: MAX_STATES_def)
qed

lemma dfa_run_dead: "dfa_run d (- 1) w = - 1"
  by (cases w) simp_all

lemma dfa_run_part:
  assumes "\<forall>c. (of_char c :: nat) < MAX_ALPHABET \<longrightarrow>
              transition d ! 1 ! of_char c = (if identifier_part c then 1 else - 1)"
  shows "dfa_run d 1 w = (if list_all identifier_part w then 1 else - 1)"
proof (induction w)
  case Nil
  show ?case by simp
next
  case (Cons c cs)
  show ?case
  proof (cases "(of_char c :: nat) < MAX_ALPHABET")
    case True
    then show ?thesis using assms Cons.IH by (simp add: dfa_run_dead)
  next
    case False
    then have "\<not> identifier_part c" using identifier_part_code by blast
    then show ?thesis using False by simp
  qed
qed

text \<open>
  Claim C2. The DFA that \<open>nfa_to_dfa\<close> builds from \<open>create_nfa_for_identifier\<close>
  accepts a string, run from its start state over its transition table, exactly when the
  string matches \<^verbatim>\<open>[A-Za-z_][A-Za-z_0-9]*\<close>.
\<close>

theorem identifier_dfa_language:
  "\<exists>d. nfa_to_dfa create_nfa_for_identifier = Some d
       \<and> (\<forall>w. dfa_accepts d w \<longleftrightarrow> matches_identifier w)"
proof -
  from nfa_to_dfa_identifier obtain d where
    d: "nfa_to_dfa create_nfa_for_identifier = Some d"
    and st: "DFA.start_state d = 0"
    and f0: "\<not> DFA.final_states d ! 0" and f1: "DFA.final_states d ! 1"
    and t0: "\<forall>c. (of_char c :: nat) < MAX_ALPHABET \<longrightarrow>
              transition d ! 0 ! of_char c = (if identifier_start c then 1 else - 1)"
    and t1: "\<forall>c. (of_char c :: nat) < MAX_ALPHABET \<longrightarrow>
              transition d ! 1 ! of_char c = (if identifier_part c then 1 else - 1)"
    by blast
  have "dfa_accepts d w \<longleftrightarrow> matches_identifier w" for w
  proof (cases w)
    case Nil
    then show ?thesis using st f0 by (simp add: dfa_accepts_def matches_identifier_def)
  next
    case (Cons c cs)
    show ?thesis
    proof (cases "(of_char c :: nat) < MAX_ALPHABET")
      case True
      then show ?thesis using Cons st t0 f1 dfa_run_part[OF t1, of cs]
        by (simp add: dfa_accepts_def matches_identifier_def dfa_run_dead)
    next
      case False
      then have "\<not> identifier_start c" using identifier_part_code identifier_start_part by blast
      then show ?thesis using Cons st False
        by (simp add: dfa_accepts_def matches_identifier_def)
    qed
  qed
  then show ?thesis using d by blast
qed

theorem identifier_dfa_language_witness:
  "matches_identifier ''_x9'' \<and> \<not> matches_identifier ''9x''
   \<and> map_option (\<lambda>d. dfa_accepts d ''_x9'') (nfa_to_dfa create_nfa_for_identifier) = Some True
   \<and> map_option (\<lambda>d. dfa_accepts d ''9x'') (nfa_to_dfa create_nfa_for_identifier) = Some False"
proof -
  have a: "matches_identifier ''_x9''"
    by (simp add: matches_identifier_def identifier_start_def identifier_part_def isalpha_def
        isdigit_def)
  have b: "\<not> matches_identifier ''9x''"
    by (simp add: matches_identifier_def identifier_start_def isalpha_def)
  show ?thesis using identifier_dfa_language a b by auto
qed

section \<open>Minimization\<close>

text \<open>
  Claim C3, at the input where the code leaves it. The DFA with the one accepting state 0
  and the loop on \<^verbatim>\<open>x\<close> is well-formed and has one state; \<open>minimize_dfa\<close> returns a DFA
  with two states, since block 0 (the states that are not accepting) is counted although it
  is empty. The result is neither the smallest DFA of the language nor at most as large as
  the input.
\<close>

theorem minimize_dfa_adds_state:
  "dfa_wf (self_loop_dfa True)
   \<and> DFA.num_states (self_loop_dfa True) = 1
   \<and> map_option DFA.num_states (minimize_dfa (self_loop_dfa True)) = Some 2"
  by code_simp

text \<open>
  Claim C4, at the input where the code leaves it. For the DFA with the one state 0, not
  accepting, and the loop on \<^verbatim>\<open>x\<close>, \<open>minimize_dfa\<close> returns a well-formed DFA with two
  states (block 1 is empty and counted), and \<open>minimize_dfa\<close> of that result has three
  states: the state of the empty block has no transition and is split from state 0.
\<close>

theorem minimize_dfa_not_idempotent:
  "dfa_wf (self_loop_dfa False)
   \<and> map_option dfa_wf (minimize_dfa (self_loop_dfa False)) = Some True
   \<and> map_option DFA.num_states (minimize_dfa (self_loop_dfa False)) = Some 2
   \<and> map_option DFA.num_states
        (Option.bind (minimize_dfa (self_loop_dfa False)) minimize_dfa) = Some 3"
  by code_simp

end
